theory Spec2Isabelle
  imports Main "HOL-Library.Sublist"
begin

section \<open>The watcher of the dev-mode supervisor (src/watcher/watcher.ts)\<close>

text \<open>
  The supervisor is single-threaded and event-driven: every handler of
  \<^verbatim>\<open>createWatcher\<close> and \<^verbatim>\<open>startRunner\<close> runs to completion before the next event is
  taken. The embedding therefore passes the whole state of one \<^verbatim>\<open>createWatcher\<close>
  call through each handler and returns it updated; what the handlers do to the
  outside world (fork, disconnect, signals, \<^verbatim>\<open>process.exit\<close>) is appended to a list of
  effects. Calls of \<^verbatim>\<open>log\<close>, the forwarding of the child's stdout and stderr and the
  plugin listeners (opaque callbacks) are left out. A string is the list of its
  code units.
\<close>

subsection \<open>String primitives of the host language\<close>

text \<open>
  \<^verbatim>\<open>String.prototype.lastIndexOf\<close>: the greatest position at which the needle
  occurs, scanning down from the end, \<open>-1\<close> when there is none.
\<close>

fun lastIndexFrom :: "string \<Rightarrow> string \<Rightarrow> nat \<Rightarrow> int" where
  "lastIndexFrom s n 0 = (if prefix n s then 0 else - 1)"
| "lastIndexFrom s n (Suc k) =
     (if prefix n (drop (Suc k) s) then int (Suc k) else lastIndexFrom s n k)"

definition lastIndexOf :: "string \<Rightarrow> string \<Rightarrow> int" where
  "lastIndexOf s n = lastIndexFrom s n (length s)"

text \<open>\<^verbatim>\<open>String.prototype.indexOf\<close>: the least such position, \<open>-1\<close> when there is none.\<close>

fun indexFrom :: "string \<Rightarrow> string \<Rightarrow> nat \<Rightarrow> int" where
  "indexFrom [] n k = (if n = [] then int k else - 1)"
| "indexFrom (c # cs) n k =
     (if prefix n (c # cs) then int k else indexFrom cs n (Suc k))"

definition indexOf :: "string \<Rightarrow> string \<Rightarrow> int" where
  "indexOf s n = indexFrom s n 0"

text \<open>\<^verbatim>\<open>String.prototype.slice(b, e)\<close>, negative bounds counted from the end.\<close>

definition slice :: "string \<Rightarrow> int \<Rightarrow> int \<Rightarrow> string" where
  "slice s b e =
     (let len = int (length s);
          from = (if b < 0 then max (len + b) 0 else min b len);
          to = (if e < 0 then max (len + e) 0 else min e len)
      in take (nat (to - from)) (drop (nat from) s))"

text \<open>
  \<^verbatim>\<open>String.prototype.split\<close> with a string separator: the scan of the language
  standard, which cuts at the first match met from the left and goes on behind it.
  \<open>piece\<close> is the part read since the last cut. An empty separator splits into the
  single characters.
\<close>

function splitLoop :: "string \<Rightarrow> string \<Rightarrow> string \<Rightarrow> string list" where
  "splitLoop sep piece s =
     (if s = [] then [piece]
      else if sep \<noteq> [] \<and> prefix sep s
        then piece # splitLoop sep [] (drop (length sep) s)
        else splitLoop sep (piece @ [hd s]) (tl s))"
  by pat_completeness auto
termination
  by (relation "measure (\<lambda>(sep, piece, s). length s)") auto

declare splitLoop.simps [simp del]

definition str_split :: "string \<Rightarrow> string \<Rightarrow> string list" where
  "str_split s sep = (if sep = [] then map (\<lambda>c. [c]) s else splitLoop sep [] s)"

subsection \<open>Nesting level of a module path\<close>

definition node_modules :: string where
  "node_modules = ''node_modules''"

text \<open>
  \<^verbatim>\<open>getPrefix\<close>: the test \<^verbatim>\<open>~i\<close> is the bitwise complement \<open>- i - 1\<close>, which is
  falsy exactly for \<open>i = -1\<close>.
\<close>

definition getPrefix :: "string \<Rightarrow> string" where
  "getPrefix m =
     (let n = node_modules; i = lastIndexOf m n
      in if - i - 1 \<noteq> 0 then slice m 0 (i + int (length n)) else [])"

definition getLevel :: "string \<Rightarrow> int" where
  "getLevel m = (let p = getPrefix m in int (length (str_split p node_modules)) - 1)"

definition isPrefixOf :: "string \<Rightarrow> string \<Rightarrow> bool" where
  "isPrefixOf v pre = (indexOf v pre = 0)"

text \<open>
  The positions at which a needle occurs in a string, and their number: what the
  nesting level is measured against.
\<close>

definition occurrences :: "string \<Rightarrow> string \<Rightarrow> nat list" where
  "occurrences n s = filter (\<lambda>i. prefix n (drop i s)) [0..<Suc (length s)]"

definition occurrenceCount :: "string \<Rightarrow> string \<Rightarrow> nat" where
  "occurrenceCount n s = length (occurrences n s)"

subsection \<open>Configuration and the primitives taken from outside\<close>

text \<open>
  Of the result of \<^verbatim>\<open>cfgFactory\<close> (./cfg) the watcher reads \<^verbatim>\<open>cfg.respawn\<close>,
  \<^verbatim>\<open>cfg.deps\<close> and \<^verbatim>\<open>cfg.ignore\<close>.
\<close>

record Cfg =
  cfgRespawn :: bool
  deps :: int
  ignore :: "string list"

text \<open>The exceptions of the host language that the watcher can meet.\<close>

datatype error = TypeError | SyntaxError

text \<open>
  What one \<^verbatim>\<open>createWatcher\<close> call is given: the configuration, the compiler's
  \<^verbatim>\<open>tsConfigPath\<close>, the ignore patterns contributed by the plugins, and the two
  matching engines, taken as parameters. \<open>newRegExp r\<close> stands for
  \<^verbatim>\<open>new RegExp(r)\<close>: the test of the compiled expression, or the \<^verbatim>\<open>SyntaxError\<close>
  thrown for a source that is no regular expression. \<open>globEngine g\<close> stands for
  the compilation of a glob that is not empty by the engine underneath
  \<^verbatim>\<open>anymatch\<close>: the test of a path, or the error thrown for a pattern the engine
  refuses.
\<close>

record Env =
  cfg :: Cfg
  tsConfigPath :: "string option"
  pluginIgnoreContributions :: "string list"
  newRegExp :: "string \<Rightarrow> error + (string \<Rightarrow> bool)"
  globEngine :: "string \<Rightarrow> error + (string \<Rightarrow> bool)"

text \<open>\<^verbatim>\<open>new RegExp(regExp).test(value)\<close>: the constructor may throw.\<close>

definition isRegExpMatch :: "Env \<Rightarrow> string \<Rightarrow> string \<Rightarrow> error + bool" where
  "isRegExpMatch env v regExp =
     (case newRegExp env regExp of Inl e \<Rightarrow> Inl e | Inr re \<Rightarrow> Inr (re v))"

text \<open>
  \<^verbatim>\<open>Array.prototype.some\<close> with a callback that may throw: the scan stops at the
  first element on which the callback is true or throws.
\<close>

fun some :: "('a \<Rightarrow> error + bool) \<Rightarrow> 'a list \<Rightarrow> error + bool" where
  "some f [] = Inr False"
| "some f (x # xs) =
     (case f x of Inl e \<Rightarrow> Inl e | Inr b \<Rightarrow> if b then Inr True else some f xs)"

subsection \<open>Path matchers\<close>

text \<open>
  \<^verbatim>\<open>anymatch\<close> (3.1.3), \<^verbatim>\<open>normalize-path\<close> and \<^verbatim>\<open>picomatch\<close> are npm packages,
  dependencies and not code of this repository; they are modelled after the
  packages. \<^verbatim>\<open>normalize-path\<close> turns every run of slashes and backslashes into one
  slash, keeps the two leading slashes of a win32 namespace, and drops a trailing
  slash unless told not to.
\<close>

definition backslash :: char where
  "backslash = CHR 0x5C"

definition isSep :: "char \<Rightarrow> bool" where
  "isSep c = (c = CHR ''/'' \<or> c = backslash)"

text \<open>\<^verbatim>\<open>path.split(/[/\\]+/)\<close>: a cut at every maximal run of separators.\<close>

function splitSeps :: "string \<Rightarrow> string \<Rightarrow> string list" where
  "splitSeps piece [] = [piece]"
| "splitSeps piece (c # cs) =
     (if isSep c then piece # splitSeps [] (dropWhile isSep cs)
      else splitSeps (piece @ [c]) cs)"
  by pat_completeness auto
termination
  by (relation "measure (\<lambda>(piece, s). length s)")
     (auto simp: less_Suc_eq_le length_dropWhile_le)

text \<open>\<^verbatim>\<open>Array.prototype.join\<close>.\<close>

fun join :: "string list \<Rightarrow> string \<Rightarrow> string" where
  "join [] sep = []"
| "join [x] sep = x"
| "join (x # y # ys) sep = x @ sep @ join (y # ys) sep"

definition normalizePath :: "string \<Rightarrow> bool \<Rightarrow> string" where
  "normalizePath path stripTrailing =
     (if path = [backslash] \<or> path = ''/'' then ''/''
      else if length path \<le> 1 then path
      else
        let win32 = (length path > 4 \<and> path ! 3 = backslash \<and>
                     (path ! 2 = CHR ''?'' \<or> path ! 2 = CHR ''.'') \<and>
                     take 2 path = [backslash, backslash]);
            rest = (if win32 then drop 2 path else path);
            pre = (if win32 then ''//'' else []);
            segs = splitSeps [] rest;
            kept = (if stripTrailing \<and> last segs = [] then butlast segs else segs)
        in pre @ join kept ''/'')"

text \<open>
  \<^verbatim>\<open>picomatch(glob)\<close> refuses the empty pattern with a \<^verbatim>\<open>TypeError\<close> before
  anything else; every other pattern goes to the engine.
\<close>

definition picomatch ::
  "(string \<Rightarrow> error + (string \<Rightarrow> bool)) \<Rightarrow> string \<Rightarrow> error + (string \<Rightarrow> bool)" where
  "picomatch engine glob = (if glob = [] then Inl TypeError else engine glob)"

text \<open>
  \<^verbatim>\<open>Array.prototype.map\<close> with a callback that may throw: the first error ends it.
\<close>

fun mapE :: "('a \<Rightarrow> error + 'b) \<Rightarrow> 'a list \<Rightarrow> error + 'b list" where
  "mapE f [] = Inr []"
| "mapE f (x # xs) =
     (case f x of
        Inl e \<Rightarrow> Inl e
      | Inr y \<Rightarrow> (case mapE f xs of Inl e \<Rightarrow> Inl e | Inr ys \<Rightarrow> Inr (y # ys)))"

text \<open>
  \<^verbatim>\<open>anymatch(matchers)\<close> on a list of strings. A matcher that begins with \<^verbatim>\<open>!\<close> is a
  negated glob, compiled without the \<^verbatim>\<open>!\<close>; every other matcher becomes a pattern
  that accepts a string equal to it or matched by its glob. All of them are
  compiled when the matcher is built, so a pattern that does not compile makes
  the build throw. The test normalises the path, keeping a trailing slash, rejects
  it when a negated glob matches, and otherwise accepts it when a pattern does.
  The core listener below relies on the rejection when nothing matches: with no
  pattern from a plugin its matcher has to reject every file for a change to
  restart the runner.
\<close>

definition isNegated :: "string \<Rightarrow> bool" where
  "isNegated m = (case m of [] \<Rightarrow> False | c # _ \<Rightarrow> c = CHR ''!'')"

definition createPattern ::
  "(string \<Rightarrow> error + (string \<Rightarrow> bool)) \<Rightarrow> string \<Rightarrow> error + (string \<Rightarrow> bool)" where
  "createPattern engine matcher =
     (case picomatch engine matcher of
        Inl e \<Rightarrow> Inl e
      | Inr glob \<Rightarrow> Inr (\<lambda>str. matcher = str \<or> glob str))"

definition matchPatterns ::
  "(string \<Rightarrow> bool) list \<Rightarrow> (string \<Rightarrow> bool) list \<Rightarrow> string \<Rightarrow> bool" where
  "matchPatterns patterns negPatterns testString =
     (let path = normalizePath testString False
      in if list_ex (\<lambda>nglob. nglob path) negPatterns then False
         else list_ex (\<lambda>pattern. pattern path) patterns)"

definition anymatch ::
  "(string \<Rightarrow> error + (string \<Rightarrow> bool)) \<Rightarrow> string list \<Rightarrow> error + (string \<Rightarrow> bool)" where
  "anymatch engine matchers =
     (case mapE (picomatch engine) (map tl (filter isNegated matchers)) of
        Inl e \<Rightarrow> Inl e
      | Inr negatedGlobs \<Rightarrow>
          (case mapE (createPattern engine) (filter (\<lambda>m. \<not> isNegated m) matchers) of
             Inl e \<Rightarrow> Inl e
           | Inr patterns \<Rightarrow> Inr (matchPatterns patterns negatedGlobs)))"

text \<open>
  \<^verbatim>\<open>createPathMatcher\<close>; an absent list (\<^verbatim>\<open>undefined\<close>) is \<open>None\<close>. The result is the
  matcher, or the error thrown while it is built.
\<close>

definition createPathMatcher ::
  "(string \<Rightarrow> error + (string \<Rightarrow> bool)) \<Rightarrow> string list option \<Rightarrow> string list option \<Rightarrow>
     error + (string \<Rightarrow> bool)" where
  "createPathMatcher engine toMatch toIgnore =
     (let toAllow = (case toMatch of Some ps \<Rightarrow> ps | None \<Rightarrow> []);
          toIgnore' = (case toIgnore of
                         Some ps \<Rightarrow> map (\<lambda>pattern. CHR ''!'' # pattern) ps
                       | None \<Rightarrow> []);
          matchers = toAllow @ toIgnore'
      in anymatch engine matchers)"

text \<open>Building a matcher and testing one path with it.\<close>

definition testWith :: "error + (string \<Rightarrow> bool) \<Rightarrow> string \<Rightarrow> error + bool" where
  "testWith matcher path = (case matcher of Inl e \<Rightarrow> Inl e | Inr test \<Rightarrow> Inr (test path))"

text \<open>
  The matcher of the core listener is built when \<^verbatim>\<open>createWatcher\<close> starts. Where the
  build throws, \<^verbatim>\<open>createWatcher\<close> fails before it registers the listener, and no
  file gets through.
\<close>

definition isIgnoredByCoreListener :: "Env \<Rightarrow> string \<Rightarrow> bool" where
  "isIgnoredByCoreListener env file =
     (case createPathMatcher (globEngine env) (Some (pluginIgnoreContributions env)) None of
        Inl e \<Rightarrow> True
      | Inr test \<Rightarrow> test file)"

subsection \<open>The state of a supervisor session\<close>

text \<open>
  A runner process with the flags the watcher keeps on the child handle
  (\<^verbatim>\<open>Process\<close> of ./types; an unset flag is falsy, \<open>connected = None\<close> is
  \<^verbatim>\<open>undefined\<close>). \<open>restartOnExit\<close> counts the \<^verbatim>\<open>exit\<close> listeners that
  \<^verbatim>\<open>restartRunner\<close> has registered on the handle.
\<close>

record Process =
  exited :: bool
  stopping :: bool
  respawn :: bool
  connected :: "bool option"
  restartOnExit :: nat

text \<open>
  Modelled from the spec: the \<^verbatim>\<open>FileWatcher\<close> of ./chokidar, whose code is not in
  watcher.ts. The spec gives it a pause flag (\<^verbatim>\<open>pause\<close> is idempotent, \<^verbatim>\<open>resume\<close> clears
  it, a paused session delivers no notification) and a set of watched paths that
  \<^verbatim>\<open>addSilently\<close> extends; \<open>silentlyAdded\<close> lists the paths added, in order.
\<close>

record FileWatcher =
  paused :: bool
  silentlyAdded :: "string list"

definition pause :: "FileWatcher \<Rightarrow> FileWatcher" where
  "pause w = w\<lparr>paused := True\<rparr>"

definition resume :: "FileWatcher \<Rightarrow> FileWatcher" where
  "resume w = w\<lparr>paused := False\<rparr>"

definition addSilently :: "string \<Rightarrow> FileWatcher \<Rightarrow> FileWatcher" where
  "addSilently p w = w\<lparr>silentlyAdded := silentlyAdded w @ [p]\<rparr>"

datatype effect =
    CompilerInit
  | CompileChanged string
  | WriteReadyFile
  | Fork nat
  | Disconnect nat
  | SendSigterm nat
  | ProcessExit int
  | Resolve
  | ConsoleError
  | ConsoleWarn
  | OnEventReady
  | UncaughtException error

text \<open>
  \<^verbatim>\<open>sendSigterm\<close> (./utils) returns a promise. A promise not yet settled is kept
  with what its continuation does: both call sites log or warn, the one of
  \<^verbatim>\<open>stopRunnerOnBeforeExit\<close> resolves the session afterwards.
\<close>

record SigtermPromise =
  target :: nat
  resolvesSession :: bool
  settled :: bool

text \<open>
  The closure of \<^verbatim>\<open>createWatcher\<close>. Process handles are positions in \<open>procs\<close>, in
  the order of forking; \<open>runner\<close> is the mutable variable of that name;
  \<open>exitCode\<close> is set once \<^verbatim>\<open>process.exit\<close> has been called; \<open>resolved\<close> once the
  promise returned by \<^verbatim>\<open>createWatcher\<close> is.
\<close>

record Supervisor =
  procs :: "Process list"
  runner :: nat
  runnerRestarting :: bool
  watcher :: FileWatcher
  promises :: "SigtermPromise list"
  exitCode :: "int option"
  resolved :: bool
  effects :: "effect list"

definition emit :: "effect \<Rightarrow> Supervisor \<Rightarrow> Supervisor" where
  "emit e s = s\<lparr>effects := effects s @ [e]\<rparr>"

definition isFork :: "effect \<Rightarrow> bool" where
  "isFork e = (case e of Fork _ \<Rightarrow> True | _ \<Rightarrow> False)"

definition isStop :: "effect \<Rightarrow> bool" where
  "isStop e = (case e of Disconnect _ \<Rightarrow> True | SendSigterm _ \<Rightarrow> True | _ \<Rightarrow> False)"

subsection \<open>Process primitives\<close>

text \<open>
  \<^verbatim>\<open>child.disconnect()\<close> closes the channel; the runtime clears \<^verbatim>\<open>child.connected\<close>.
\<close>

definition disconnect :: "nat \<Rightarrow> Supervisor \<Rightarrow> Supervisor" where
  "disconnect child s =
     emit (Disconnect child)
       (s\<lparr>procs := (procs s)[child := (procs s ! child)\<lparr>connected := Some False\<rparr>]\<rparr>)"

definition sendSigterm :: "nat \<Rightarrow> bool \<Rightarrow> Supervisor \<Rightarrow> Supervisor" where
  "sendSigterm child forShutdown s =
     emit (SendSigterm child)
       (s\<lparr>promises := promises s @
            [\<lparr>target = child, resolvesSession = forShutdown, settled = False\<rparr>]\<rparr>)"

definition processExit :: "int \<Rightarrow> Supervisor \<Rightarrow> Supervisor" where
  "processExit c s = emit (ProcessExit c) (s\<lparr>exitCode := Some c\<rparr>)"

definition resolveSession :: "Supervisor \<Rightarrow> Supervisor" where
  "resolveSession s = emit Resolve (s\<lparr>resolved := True\<rparr>)"

subsection \<open>Starting and stopping the runner\<close>

text \<open>
  \<^verbatim>\<open>startRunner\<close> forks the child and returns its handle; \<^verbatim>\<open>fork\<close> opens the
  channel, so the runtime has \<^verbatim>\<open>child.connected\<close> true. The handlers it registers on
  the child are the functions \<open>onChildExit\<close>, \<open>onRequired\<close>, \<open>onError\<close> and
  \<open>onReady\<close> below.
\<close>

definition startRunner :: "Env \<Rightarrow> Supervisor \<Rightarrow> nat \<times> Supervisor" where
  "startRunner env s =
     (let child = length (procs s);
          s1 = emit (Fork child)
                 (s\<lparr>procs := procs s @
                      [\<lparr>exited = False, stopping = False, respawn = False,
                        connected = Some True, restartOnExit = 0\<rparr>]\<rparr>);
          s2 = (if cfgRespawn (cfg env)
                then s1\<lparr>procs := (procs s1)[child := (procs s1 ! child)\<lparr>respawn := True\<rparr>]\<rparr>
                else s1);
          s3 = (case tsConfigPath env of
                  Some p \<Rightarrow> if p \<noteq> [] then s2\<lparr>watcher := addSilently p (watcher s2)\<rparr> else s2
                | None \<Rightarrow> s2)
      in (child, emit WriteReadyFile s3))"

definition stopRunner :: "nat \<Rightarrow> bool option \<Rightarrow> Supervisor \<Rightarrow> Supervisor" where
  "stopRunner child willTerminate s =
     (if exited (procs s ! child) \<or> stopping (procs s ! child) then s
      else
        let s1 = s\<lparr>procs := (procs s)[child := (procs s ! child)\<lparr>stopping := True\<rparr>]\<rparr>;
            s2 = s1\<lparr>procs := (procs s1)[child := (procs s1 ! child)\<lparr>respawn := True\<rparr>]\<rparr>
        in if connected (procs s2 ! child) = None \<or> connected (procs s2 ! child) = Some True
           then
             let s3 = disconnect child s2
             in if willTerminate = Some True then s3
                else sendSigterm child False s3
           else s2)"

text \<open>The listener that \<^verbatim>\<open>restartRunner\<close> registers on the runner's \<^verbatim>\<open>exit\<close>.\<close>

definition onExitRestart :: "Env \<Rightarrow> Supervisor \<Rightarrow> Supervisor" where
  "onExitRestart env s =
     (let (child, s1) = startRunner env s
      in s1\<lparr>runner := child, runnerRestarting := False\<rparr>)"

definition restartRunner :: "Env \<Rightarrow> string \<Rightarrow> Supervisor \<Rightarrow> Supervisor" where
  "restartRunner env file s =
     (let s1 = s\<lparr>watcher := pause (watcher s)\<rparr>;
          s2 = (if Some file = tsConfigPath env then emit CompilerInit s1 else s1);
          s3 = emit (CompileChanged file) s2
      in if runnerRestarting s3 then s3
         else
           let s4 = s3\<lparr>runnerRestarting := True\<rparr>
           in if \<not> exited (procs s4 ! runner s4)
              then
                let r = runner s4;
                    s5 = s4\<lparr>procs := (procs s4)[r := (procs s4 ! r)
                               \<lparr>restartOnExit := Suc (restartOnExit (procs s4 ! r))\<rparr>]\<rparr>
                in stopRunner r None s5
              else
                let (child, s5) = startRunner env s4
                in s5\<lparr>runner := child, runnerRestarting := False\<rparr>)"

text \<open>The listener of the watcher's \<^verbatim>\<open>all\<close> event.\<close>

definition coreListener :: "Env \<Rightarrow> string \<Rightarrow> Supervisor \<Rightarrow> Supervisor" where
  "coreListener env file s =
     (if isIgnoredByCoreListener env file then s else restartRunner env file s)"

subsection \<open>Handlers on the child\<close>

text \<open>
  The \<^verbatim>\<open>exit\<close> handler of \<^verbatim>\<open>startRunner\<close>. \<^verbatim>\<open>process.exit\<close> does not return, so
  nothing after it runs.
\<close>

definition onChildExit :: "nat \<Rightarrow> int option \<Rightarrow> Supervisor \<Rightarrow> Supervisor" where
  "onChildExit child code s =
     (if exited (procs s ! child) then s
      else if \<not> respawn (procs s ! child)
        then processExit (case code of Some c \<Rightarrow> c | None \<Rightarrow> 1) s
        else s\<lparr>procs := (procs s)[child := (procs s ! child)\<lparr>exited := True\<rparr>]\<rparr>)"

text \<open>
  An \<^verbatim>\<open>exit\<close> of the child runs its listeners in the order of registration: the
  handler of \<^verbatim>\<open>startRunner\<close> first, then those of \<^verbatim>\<open>restartRunner\<close>.
\<close>

definition emitExit :: "Env \<Rightarrow> nat \<Rightarrow> int option \<Rightarrow> Supervisor \<Rightarrow> Supervisor" where
  "emitExit env child code s =
     (let k = restartOnExit (procs s ! child);
          s1 = onChildExit child code s
      in if exitCode s1 \<noteq> None then s1 else (onExitRestart env ^^ k) s1)"

definition withinDepth :: "Env \<Rightarrow> string \<Rightarrow> bool" where
  "withinDepth env required =
     (deps (cfg env) = - 1 \<or> getLevel required \<le> deps (cfg env))"

text \<open>
  The \<^verbatim>\<open>required\<close> handler. The prefix test comes first and \<^verbatim>\<open>||\<close> evaluates the
  regular expressions only when no rule is a prefix; an exception of the
  constructor leaves the handler before anything is added.
\<close>

definition onRequired :: "Env \<Rightarrow> string \<Rightarrow> Supervisor \<Rightarrow> error + Supervisor" where
  "onRequired env required s =
     (case (if list_ex (isPrefixOf required) (ignore (cfg env)) then Inr True
            else some (isRegExpMatch env required) (ignore (cfg env))) of
        Inl e \<Rightarrow> Inl e
      | Inr isIgnored \<Rightarrow>
          Inr (if \<not> isIgnored \<and> withinDepth env required
               then s\<lparr>watcher := addSilently required (watcher s)\<rparr>
               else s))"

text \<open>
  The \<^verbatim>\<open>error\<close> handler with the \<^verbatim>\<open>onError\<close> callback of \<^verbatim>\<open>startRunnerDo\<close>, which
  stops whatever process is the runner when the message arrives.
\<close>

definition onError :: "bool option \<Rightarrow> Supervisor \<Rightarrow> Supervisor" where
  "onError willTerminate s =
     (let s1 = emit ConsoleError s;
          s2 = stopRunner (runner s1) willTerminate s1
      in s2\<lparr>watcher := resume (watcher s2)\<rparr>)"

definition onReady :: "Supervisor \<Rightarrow> Supervisor" where
  "onReady s = emit OnEventReady (s\<lparr>watcher := resume (watcher s)\<rparr>)"

subsection \<open>Shutdown\<close>

text \<open>
  \<^verbatim>\<open>stopRunnerOnBeforeExit().then(() => resolve())\<close>. With the runner exited the
  promise is already fulfilled and the session is resolved at once; otherwise the
  resolution waits in the continuation of \<^verbatim>\<open>sendSigterm\<close>.
\<close>

definition stopRunnerOnBeforeExit :: "Supervisor \<Rightarrow> Supervisor" where
  "stopRunnerOnBeforeExit s =
     (if exited (procs s ! runner s) then resolveSession s
      else sendSigterm (runner s) True s)"

text \<open>
  The promise at position \<open>k\<close> settles, fulfilled (\<open>ok\<close>) or rejected: the
  rejection is reported with \<^verbatim>\<open>console.warn\<close> and goes no further.
\<close>

definition onSigtermSettled :: "nat \<Rightarrow> bool \<Rightarrow> Supervisor \<Rightarrow> Supervisor" where
  "onSigtermSettled k ok s =
     (if k < length (promises s) \<and> \<not> settled (promises s ! k)
      then
        let pr = promises s ! k;
            s1 = s\<lparr>promises := (promises s)[k := pr\<lparr>settled := True\<rparr>]\<rparr>;
            s2 = (if ok then s1 else emit ConsoleWarn s1)
        in if resolvesSession pr then resolveSession s2 else s2
      else s)"

subsection \<open>Events of a session\<close>

datatype signal = SIGTERM | SIGINT

text \<open>
  What the event loop delivers: a file notification of the watcher, a call of the
  \<^verbatim>\<open>restart\<close> callback handed to the plugins, the exit of a child with its code and
  signal, the channel closed from the child's side, the three messages of the
  child, a signal to the supervisor, and the settling of a \<^verbatim>\<open>sendSigterm\<close> promise.
  A file notification reaches the core listener only while the watcher is not
  paused; an event that names a handle never forked has no handler to run. An
  exception that leaves a handler is recorded as an effect, with the state as the
  handler left it; what the runtime makes of it is not part of watcher.ts.
\<close>

datatype event =
    FsNotification string
  | Restart string
  | ChildExit nat "int option" "string option"
  | ChildDisconnected nat
  | IpcRequired nat string
  | IpcError nat "bool option"
  | IpcReady nat
  | ProcessSignal signal
  | SigtermSettled nat bool

fun handle :: "Env \<Rightarrow> Supervisor \<Rightarrow> event \<Rightarrow> Supervisor" where
  "handle env s (FsNotification file) =
     (if paused (watcher s) then s else coreListener env file s)"
| "handle env s (Restart file) = restartRunner env file s"
| "handle env s (ChildExit child code sig) =
     (if child < length (procs s) then emitExit env child code s else s)"
| "handle env s (ChildDisconnected child) =
     (if child < length (procs s)
      then s\<lparr>procs := (procs s)[child := (procs s ! child)\<lparr>connected := Some False\<rparr>]\<rparr>
      else s)"
| "handle env s (IpcRequired child required) =
     (if child < length (procs s)
      then (case onRequired env required s of
              Inl e \<Rightarrow> emit (UncaughtException e) s
            | Inr s' \<Rightarrow> s')
      else s)"
| "handle env s (IpcError child willTerminate) =
     (if child < length (procs s) then onError willTerminate s else s)"
| "handle env s (IpcReady child) =
     (if child < length (procs s) then onReady s else s)"
| "handle env s (ProcessSignal sg) = stopRunnerOnBeforeExit s"
| "handle env s (SigtermSettled k ok) = onSigtermSettled k ok s"

text \<open>Once \<^verbatim>\<open>process.exit\<close> has been called the supervisor handles nothing more.\<close>

definition step :: "Env \<Rightarrow> Supervisor \<Rightarrow> event \<Rightarrow> Supervisor" where
  "step env s ev = (if exitCode s \<noteq> None then s else handle env s ev)"

text \<open>
  The body of \<^verbatim>\<open>createWatcher\<close> up to the first event: the compiler is
  initialised, the watcher is created (not paused) and the first runner forked.
\<close>

definition boot :: "Env \<Rightarrow> Supervisor" where
  "boot env =
     (let s0 = \<lparr>procs = [], runner = 0, runnerRestarting = False,
                watcher = \<lparr>paused = False, silentlyAdded = []\<rparr>,
                promises = [], exitCode = None, resolved = False,
                effects = [CompilerInit]\<rparr>;
          (child, s1) = startRunner env s0
      in s1\<lparr>runner := child\<rparr>)"

definition run :: "Env \<Rightarrow> event list \<Rightarrow> Supervisor" where
  "run env evs = foldl (step env) (boot env) evs"

text \<open>
  A configuration to run the model on: one ignore rule, no plugin, depth 1. Its
  engines are right on the sources the examples use: a regular expression without
  metacharacters matches wherever it occurs, \<^verbatim>\<open>[\<close> is no regular expression,
  and a glob without special characters matches the path equal to it.
\<close>

definition exampleRegExp :: "string \<Rightarrow> error + (string \<Rightarrow> bool)" where
  "exampleRegExp r = (if r = ''['' then Inl SyntaxError else Inr (\<lambda>v. sublist r v))"

definition exampleGlob :: "string \<Rightarrow> error + (string \<Rightarrow> bool)" where
  "exampleGlob g = Inr (\<lambda>p. g = p)"

definition exampleEnv :: Env where
  "exampleEnv =
     \<lparr>cfg = \<lparr>cfgRespawn = False, deps = 1, ignore = [''/app/dist'']\<rparr>,
      tsConfigPath = Some ''tsconfig.json'',
      pluginIgnoreContributions = [],
      newRegExp = exampleRegExp,
      globEngine = exampleGlob\<rparr>"


subsection \<open>Notions used in the properties\<close>

text \<open>
  The condition of the \<^verbatim>\<open>required\<close> filter as the specification words it: no
  ignore rule is a prefix of the path, none matches it as a regular expression,
  and the nesting level is within the configured depth.
\<close>

definition requiredAccepted :: "Env \<Rightarrow> string \<Rightarrow> bool" where
  "requiredAccepted env required \<longleftrightarrow>
     (\<forall>r\<in>set (ignore (cfg env)).
        \<not> prefix r required \<and> \<not> (\<exists>re. newRegExp env r = Inr re \<and> re required)) \<and>
     (deps (cfg env) = - 1 \<or> getLevel required \<le> deps (cfg env))"

text \<open>The process that \<^verbatim>\<open>startRunner\<close> leaves in the store.\<close>

definition freshProcess :: "Env \<Rightarrow> Process" where
  "freshProcess env =
     \<lparr>exited = False, stopping = False, respawn = cfgRespawn (cfg env),
      connected = Some True, restartOnExit = 0\<rparr>"

text \<open>
  What holds in every state a session reaches: the runner is a forked process; a
  process that has exited, is stopping or carries a restart listener has its
  respawn flag set; the runner carries one restart listener while a restart is in
  flight and none otherwise; and a restart in flight waits for a runner that has
  not exited.
\<close>

definition wellFormed :: "Supervisor \<Rightarrow> bool" where
  "wellFormed s \<longleftrightarrow>
     runner s < length (procs s) \<and>
     (\<forall>i<length (procs s).
        (exited (procs s ! i) \<longrightarrow> respawn (procs s ! i)) \<and>
        (stopping (procs s ! i) \<longrightarrow> respawn (procs s ! i)) \<and>
        (0 < restartOnExit (procs s ! i) \<longrightarrow> respawn (procs s ! i))) \<and>
     restartOnExit (procs s ! runner s) = (if runnerRestarting s then 1 else 0) \<and>
     (runnerRestarting s \<longrightarrow> \<not> exited (procs s ! runner s))"

section \<open>Properties\<close>

text \<open>The definitions of the session, for running it on concrete events.\<close>

lemmas session_defs =
  run_def step_def boot_def startRunner_def emit_def addSilently_def pause_def resume_def
  stopRunner_def disconnect_def sendSigterm_def processExit_def resolveSession_def
  onExitRestart_def restartRunner_def coreListener_def onChildExit_def emitExit_def
  onRequired_def onError_def onReady_def stopRunnerOnBeforeExit_def onSigtermSettled_def
  isIgnoredByCoreListener_def createPathMatcher_def anymatch_def matchPatterns_def Let_def

subsection \<open>Occurrences of a needle and the nesting level\<close>

lemma occurrences_Cons:
  "occurrences n (c # cs) =
     (if prefix n (c # cs) then [0] else []) @ map Suc (occurrences n cs)"
proof -
  have "[0..<Suc (length (c # cs))] = 0 # map Suc [0..<Suc (length cs)]"
    by (simp add: upt_conv_Cons map_Suc_upt del: upt_Suc)
  then show ?thesis
    by (simp add: occurrences_def filter_map comp_def del: upt_Suc)
qed

lemma occurrenceCount_Cons:
  "occurrenceCount n (c # cs) = (if prefix n (c # cs) then 1 else 0) + occurrenceCount n cs"
  by (simp add: occurrenceCount_def occurrences_Cons)

lemma occurrenceCount_Nil: "occurrenceCount n [] = (if n = [] then 1 else 0)"
  by (simp add: occurrenceCount_def occurrences_def)

lemma occurrenceCount_drop:
  "k \<le> length s \<Longrightarrow>
   occurrenceCount n s =
     length (filter (\<lambda>i. prefix n (drop i s)) [0..<k]) + occurrenceCount n (drop k s)"
proof (induction s arbitrary: k)
  case Nil
  then show ?case by simp
next
  case (Cons c cs)
  show ?case
  proof (cases k)
    case 0
    then show ?thesis by simp
  next
    case (Suc j)
    have upt: "[0..<Suc j] = 0 # map Suc [0..<j]"
      by (simp add: upt_conv_Cons map_Suc_upt del: upt_Suc)
    from Suc Cons.prems have "j \<le> length cs" by simp
    from Cons.IH [OF this] Suc show ?thesis
      by (simp add: occurrenceCount_Cons upt filter_map comp_def del: upt_Suc)
  qed
qed

lemma length_node_modules: "length node_modules = 12"
  by (simp add: node_modules_def)

lemma node_modules_nonempty: "node_modules \<noteq> []"
  by (simp add: node_modules_def)

lemma node_modules_no_overlap:
  assumes "prefix node_modules s" and "0 < k" and "k < 12"
  shows "\<not> prefix node_modules (drop k s)"
proof -
  from assms(1) obtain r where s: "s = node_modules @ r"
    by (auto simp: prefix_def)
  from assms(2,3) have "k \<in> {1,2,3,4,5,6,7,8,9,10,11}" by simp arith
  then show ?thesis
    unfolding s by (auto simp: node_modules_def)
qed

lemma occurrenceCount_node_modules_prefix:
  assumes "prefix node_modules s"
  shows "occurrenceCount node_modules s = Suc (occurrenceCount node_modules (drop 12 s))"
proof -
  from assms have len: "12 \<le> length s"
    by (auto simp: prefix_def node_modules_def)
  have "[0..<12] = 0 # [1..<12]"
    by (simp add: upt_conv_Cons)
  moreover have "filter (\<lambda>i. prefix node_modules (drop i s)) [1..<12] = []"
    using node_modules_no_overlap [OF assms] by (auto simp: filter_empty_conv)
  ultimately have "filter (\<lambda>i. prefix node_modules (drop i s)) [0..<12] = [0]"
    using assms by simp
  with occurrenceCount_drop [OF len, of node_modules] show ?thesis by simp
qed

lemma length_splitLoop_node_modules:
  "length (splitLoop node_modules piece s) = Suc (occurrenceCount node_modules s)"
proof (induction "node_modules" piece s rule: splitLoop.induct)
  case (1 piece s)
  show ?case
  proof (cases "s = []")
    case True
    then show ?thesis
      by (subst splitLoop.simps) (simp add: occurrenceCount_Nil node_modules_nonempty)
  next
    case False
    then obtain c cs where s: "s = c # cs" by (cases s) auto
    show ?thesis
    proof (cases "prefix node_modules s")
      case True
      from False True have "splitLoop node_modules piece s =
          piece # splitLoop node_modules [] (drop 12 s)"
        by (subst splitLoop.simps) (simp add: node_modules_nonempty length_node_modules)
      moreover from 1(1) False True have
        "length (splitLoop node_modules [] (drop 12 s)) =
           Suc (occurrenceCount node_modules (drop 12 s))"
        by (simp add: node_modules_nonempty length_node_modules)
      ultimately show ?thesis
        using True by (simp add: occurrenceCount_node_modules_prefix)
    next
      case nopre: False
      from False nopre have "splitLoop node_modules piece s =
          splitLoop node_modules (piece @ [hd s]) (tl s)"
        by (subst splitLoop.simps) simp
      moreover from 1(2) False nopre have
        "length (splitLoop node_modules (piece @ [hd s]) (tl s)) =
           Suc (occurrenceCount node_modules (tl s))"
        by simp
      ultimately show ?thesis
        using nopre s by (simp add: occurrenceCount_Cons)
    qed
  qed
qed

lemma lastIndexFrom_none:
  "lastIndexFrom s n k = - 1 \<longleftrightarrow> (\<forall>i\<le>k. \<not> prefix n (drop i s))"
proof (induction k)
  case 0
  then show ?case by simp
next
  case (Suc k)
  then show ?case by (auto simp: le_Suc_eq)
qed

lemma lastIndexFrom_some:
  "lastIndexFrom s n k \<noteq> - 1 \<Longrightarrow>
   \<exists>i\<le>k. lastIndexFrom s n k = int i \<and> prefix n (drop i s) \<and>
          (\<forall>j. i < j \<and> j \<le> k \<longrightarrow> \<not> prefix n (drop j s))"
proof (induction k)
  case 0
  then show ?case by (auto split: if_splits)
next
  case (Suc k)
  show ?case
  proof (cases "prefix n (drop (Suc k) s)")
    case True
    then show ?thesis by auto
  next
    case False
    with Suc.prems have "lastIndexFrom s n k \<noteq> - 1" by simp
    from Suc.IH [OF this] obtain i where "i \<le> k" "lastIndexFrom s n k = int i"
      "prefix n (drop i s)" "\<forall>j. i < j \<and> j \<le> k \<longrightarrow> \<not> prefix n (drop j s)" by blast
    with False show ?thesis
      by (intro exI [of _ i]) (auto simp: le_Suc_eq)
  qed
qed

lemma sublist_iff_occurrence:
  "sublist n s \<longleftrightarrow> (\<exists>i\<le>length s. prefix n (drop i s))"
proof
  assume "sublist n s"
  then obtain ps ss where "s = ps @ n @ ss" by (auto simp: sublist_def)
  then have "length ps \<le> length s" "prefix n (drop (length ps) s)" by auto
  then show "\<exists>i\<le>length s. prefix n (drop i s)" by blast
next
  assume "\<exists>i\<le>length s. prefix n (drop i s)"
  then obtain i zs where "drop i s = n @ zs" by (auto simp: prefix_def)
  then have "s = take i s @ n @ zs" by (metis append_take_drop_id)
  then show "sublist n s" unfolding sublist_def by blast
qed

lemma getPrefix_absent:
  "\<not> sublist node_modules m \<Longrightarrow> getPrefix m = []"
  using lastIndexFrom_none [of m node_modules "length m"]
  by (simp add: getPrefix_def lastIndexOf_def sublist_iff_occurrence Let_def)

lemma getPrefix_present:
  assumes "sublist node_modules m"
  shows "\<exists>i. prefix node_modules (drop i m) \<and>
             (\<forall>j. i < j \<longrightarrow> \<not> prefix node_modules (drop j m)) \<and>
             getPrefix m = take (i + 12) m"
proof -
  from assms have "lastIndexFrom m node_modules (length m) \<noteq> - 1"
    by (simp add: lastIndexFrom_none sublist_iff_occurrence)
  from lastIndexFrom_some [OF this] obtain i where i: "i \<le> length m"
    "lastIndexFrom m node_modules (length m) = int i" "prefix node_modules (drop i m)"
    "\<forall>j. i < j \<and> j \<le> length m \<longrightarrow> \<not> prefix node_modules (drop j m)" by blast
  from i(3) have len: "i + 12 \<le> length m"
    by (auto simp: prefix_def node_modules_def dest: arg_cong [where f = length])
  have later: "\<not> prefix node_modules (drop j m)" if "i < j" for j
  proof (cases "j \<le> length m")
    case True
    with that i(4) show ?thesis by blast
  next
    case False
    then show ?thesis by (simp add: node_modules_nonempty)
  qed
  from i(2) len have "getPrefix m = take (i + 12) m"
    by (simp add: getPrefix_def lastIndexOf_def slice_def Let_def length_node_modules nat_add_distrib)
  with i(3) later show ?thesis by blast
qed

lemma getLevel_occurrenceCount:
  "getLevel m = int (occurrenceCount node_modules (getPrefix m))"
  by (simp add: getLevel_def str_split_def node_modules_nonempty length_splitLoop_node_modules Let_def)

lemma getLevel_absent: "\<not> sublist node_modules m \<Longrightarrow> getLevel m = 0"
  by (simp add: getLevel_occurrenceCount getPrefix_absent occurrenceCount_Nil node_modules_nonempty)

text \<open>
  Claim C10. For every path, \<^verbatim>\<open>getLevel\<close> is the number of positions at which
  \<^verbatim>\<open>node_modules\<close> occurs in \<^verbatim>\<open>getPrefix\<close> of the path, and that prefix is the path
  up to and including its last occurrence of \<^verbatim>\<open>node_modules\<close>. A path that does not
  contain \<^verbatim>\<open>node_modules\<close> has level 0 and so passes the depth test of the
  \<^verbatim>\<open>required\<close> handler for every configured depth that is not negative.
\<close>

theorem C10_getLevel_counts_node_modules:
  "getLevel m = int (occurrenceCount node_modules (getPrefix m)) \<and>
   (sublist node_modules m \<longrightarrow>
      (\<exists>i. prefix node_modules (drop i m) \<and>
           (\<forall>j. i < j \<longrightarrow> \<not> prefix node_modules (drop j m)) \<and>
           getPrefix m = take (i + length node_modules) m)) \<and>
   (\<not> sublist node_modules m \<longrightarrow>
      getLevel m = 0 \<and> (0 \<le> deps (cfg env) \<longrightarrow> withinDepth env m))"
proof (intro conjI impI)
  show "getLevel m = int (occurrenceCount node_modules (getPrefix m))"
    by (rule getLevel_occurrenceCount)
next
  assume "sublist node_modules m"
  from getPrefix_present [OF this]
  show "\<exists>i. prefix node_modules (drop i m) \<and>
           (\<forall>j. i < j \<longrightarrow> \<not> prefix node_modules (drop j m)) \<and>
           getPrefix m = take (i + length node_modules) m"
    by (simp add: length_node_modules)
next
  assume "\<not> sublist node_modules m"
  then show "getLevel m = 0" by (rule getLevel_absent)
next
  assume "\<not> sublist node_modules m" and "0 \<le> deps (cfg env)"
  then show "withinDepth env m"
    by (simp add: withinDepth_def getLevel_absent)
qed

theorem C10_getLevel_counts_node_modules_witness:
  "sublist node_modules ''/app/node_modules/a/node_modules/b.js'' \<and>
   getLevel ''/app/node_modules/a/node_modules/b.js'' = 2 \<and>
   \<not> sublist node_modules ''/app/src/b.js'' \<and>
   0 \<le> deps (cfg exampleEnv) \<and>
   getLevel ''/app/src/b.js'' = 0 \<and>
   withinDepth exampleEnv ''/app/src/b.js''"
proof -
  have a: "sublist node_modules ''/app/node_modules/a/node_modules/b.js''"
    by code_simp
  have b: "\<not> sublist node_modules ''/app/src/b.js''"
    by code_simp
  have c: "0 \<le> deps (cfg exampleEnv)"
    by (simp add: exampleEnv_def)
  have d: "getPrefix ''/app/node_modules/a/node_modules/b.js'' = ''/app/node_modules/a/node_modules''"
    by code_simp
  have e: "occurrenceCount node_modules ''/app/node_modules/a/node_modules'' = 2"
    by code_simp
  from C10_getLevel_counts_node_modules [of "''/app/node_modules/a/node_modules/b.js''" exampleEnv]
    C10_getLevel_counts_node_modules [of "''/app/src/b.js''" exampleEnv] a b c d e
  show ?thesis by simp
qed

text \<open>
  The last occurrence ends the prefix, and occurrences of \<^verbatim>\<open>node_modules\<close> cannot
  overlap, so the level is also the number of occurrences in the whole path.
\<close>

lemma prefix_take_iff:
  "prefix n (take k xs) \<longleftrightarrow> prefix n xs \<and> length n \<le> k"
proof
  assume "prefix n (take k xs)"
  then obtain zs where z: "take k xs = n @ zs" by (auto simp: prefix_def)
  then have "length n \<le> k"
    by (metis le_add1 length_append length_take min.cobounded2 order_trans)
  moreover from z have "prefix n xs"
    by (metis append_take_drop_id prefix_def append.assoc)
  ultimately show "prefix n xs \<and> length n \<le> k" by simp
next
  assume "prefix n xs \<and> length n \<le> k"
  then show "prefix n (take k xs)"
    by (auto simp: prefix_def)
qed

lemma occurrenceCount_zero_iff: "occurrenceCount n s = 0 \<longleftrightarrow> \<not> sublist n s"
  by (auto simp: occurrenceCount_def occurrences_def filter_empty_conv sublist_iff_occurrence
      less_Suc_eq_le)

lemma occurrences_take_last:
  assumes "prefix node_modules (drop i m)"
    and "\<forall>j. i < j \<longrightarrow> \<not> prefix node_modules (drop j m)"
  shows "occurrences node_modules (take (i + 12) m) = occurrences node_modules m"
proof -
  from assms(1) have len: "i + 12 \<le> length m"
    by (auto simp: prefix_def node_modules_def dest: arg_cong [where f = length])
  have same: "prefix node_modules (drop j (take (i + 12) m)) \<longleftrightarrow> prefix node_modules (drop j m)"
    for j
  proof (cases "j \<le> i")
    case True
    then have "12 \<le> i + 12 - j" by arith
    then show ?thesis
      by (simp add: drop_take prefix_take_iff length_node_modules)
  next
    case False
    with assms(2) have "\<not> prefix node_modules (drop j m)" by simp
    moreover from False have "\<not> 12 \<le> i + 12 - j" by arith
    then have "\<not> prefix node_modules (drop j (take (i + 12) m))"
      by (simp add: drop_take prefix_take_iff length_node_modules)
    ultimately show ?thesis by simp
  qed
  have split: "[0..<Suc (length m)] = [0..<Suc (i + 12)] @ [Suc (i + 12)..<Suc (length m)]"
  proof -
    from len have "Suc (length m) = Suc (i + 12) + (length m - (i + 12))" by simp
    then show ?thesis
      using upt_add_eq_append [of 0 "Suc (i + 12)" "length m - (i + 12)"] by simp
  qed
  have none: "filter (\<lambda>j. prefix node_modules (drop j m)) [Suc (i + 12)..<Suc (length m)] = []"
    using assms(2) by (auto simp: filter_empty_conv)
  have "filter (\<lambda>j. prefix node_modules (drop j m)) [0..<Suc (length m)] =
      filter (\<lambda>j. prefix node_modules (drop j m)) [0..<Suc (i + 12)]"
    by (subst split) (simp only: filter_append none append_Nil2)
  moreover from len have "length (take (i + 12) m) = i + 12" by simp
  ultimately show ?thesis
    unfolding occurrences_def by (simp add: same del: upt_Suc)
qed

lemma getLevel_whole_path: "getLevel m = int (occurrenceCount node_modules m)"
proof (cases "sublist node_modules m")
  case False
  then show ?thesis by (simp add: getLevel_absent occurrenceCount_zero_iff)
next
  case True
  from getPrefix_present [OF this] obtain i where
    "prefix node_modules (drop i m)" "\<forall>j. i < j \<longrightarrow> \<not> prefix node_modules (drop j m)"
    "getPrefix m = take (i + 12) m" by blast
  then show ?thesis
    by (simp add: getLevel_occurrenceCount occurrenceCount_def occurrences_take_last)
qed

text \<open>
  The nesting level of a path is the number of positions at which \<^verbatim>\<open>node_modules\<close>
  occurs in it, and it is 0 exactly for the paths that do not contain it.
\<close>

theorem getLevel_counts_whole_path:
  "getLevel m = int (occurrenceCount node_modules m) \<and>
   (getLevel m = 0 \<longleftrightarrow> \<not> sublist node_modules m)"
proof
  show "getLevel m = int (occurrenceCount node_modules m)"
    by (rule getLevel_whole_path)
  then show "getLevel m = 0 \<longleftrightarrow> \<not> sublist node_modules m"
    by (simp add: occurrenceCount_zero_iff)
qed

subsection \<open>Path matchers\<close>

lemma mapE_ok:
  "\<forall>x\<in>set xs. \<not> isl (f x) \<Longrightarrow> mapE f xs = Inr (map (\<lambda>x. projr (f x)) xs)"
  by (induction xs) (auto split: sum.splits)

lemma mapE_error:
  "\<exists>x\<in>set xs. isl (f x) \<Longrightarrow> isl (mapE f xs)"
proof (induction xs)
  case Nil
  then show ?case by simp
next
  case (Cons x xs)
  show ?case
  proof (cases "f x")
    case (Inl e)
    then show ?thesis by simp
  next
    case (Inr y)
    with Cons.prems have "\<exists>x\<in>set xs. isl (f x)" by auto
    then have "isl (mapE f xs)" by (rule Cons.IH)
    with Inr show ?thesis by (cases "mapE f xs") simp_all
  qed
qed

lemma createPattern_isl: "isl (createPattern engine m) = isl (picomatch engine m)"
  by (simp add: createPattern_def split: sum.splits)

lemma createPattern_projr:
  "\<not> isl (picomatch engine m) \<Longrightarrow>
   projr (createPattern engine m) = (\<lambda>str. m = str \<or> projr (picomatch engine m) str)"
  by (cases "picomatch engine m") (simp_all add: createPattern_def)

lemma isNegated_bang [simp]: "isNegated (CHR ''!'' # pattern)"
  by (simp add: isNegated_def)

lemma matchers_plain:
  assumes "\<forall>a\<in>set allow. \<not> isNegated a"
  shows "map tl (filter isNegated (allow @ map (\<lambda>pattern. CHR ''!'' # pattern) ign)) = ign"
    and "filter (\<lambda>m. \<not> isNegated m) (allow @ map (\<lambda>pattern. CHR ''!'' # pattern) ign) = allow"
proof -
  from assms have "filter isNegated allow = []" "filter (\<lambda>m. \<not> isNegated m) allow = allow"
    by (simp_all add: filter_empty_conv filter_id_conv)
  moreover have "filter isNegated (map (\<lambda>pattern. CHR ''!'' # pattern) ign) =
      map (\<lambda>pattern. CHR ''!'' # pattern) ign"
    "filter (\<lambda>m. \<not> isNegated m) (map (\<lambda>pattern. CHR ''!'' # pattern) ign) = []"
    by (simp_all add: filter_id_conv filter_empty_conv)
  ultimately show
    "map tl (filter isNegated (allow @ map (\<lambda>pattern. CHR ''!'' # pattern) ign)) = ign"
    "filter (\<lambda>m. \<not> isNegated m) (allow @ map (\<lambda>pattern. CHR ''!'' # pattern) ign) = allow"
    by (simp_all add: comp_def)
qed

lemma createPathMatcher_anymatch:
  "createPathMatcher engine (Some allow) (Some ign) =
     anymatch engine (allow @ map (\<lambda>pattern. CHR ''!'' # pattern) ign)"
  by (simp add: createPathMatcher_def)

lemma createPathMatcher_built:
  assumes plain: "\<forall>a\<in>set allow. \<not> isNegated a"
    and ok: "\<forall>g\<in>set allow \<union> set ign. \<not> isl (picomatch engine g)"
  shows "createPathMatcher engine (Some allow) (Some ign) =
           Inr (matchPatterns (map (\<lambda>a. projr (createPattern engine a)) allow)
                              (map (\<lambda>i. projr (picomatch engine i)) ign))"
proof -
  from ok have "mapE (picomatch engine) ign = Inr (map (\<lambda>i. projr (picomatch engine i)) ign)"
    by (intro mapE_ok) simp
  moreover from ok have
    "mapE (createPattern engine) allow = Inr (map (\<lambda>a. projr (createPattern engine a)) allow)"
    by (intro mapE_ok) (simp add: createPattern_isl)
  ultimately show ?thesis
    unfolding createPathMatcher_anymatch anymatch_def matchers_plain [OF plain] by simp
qed

lemma createPathMatcher_throws:
  assumes plain: "\<forall>a\<in>set allow. \<not> isNegated a"
    and bad: "\<exists>g\<in>set allow \<union> set ign. isl (picomatch engine g)"
  shows "isl (createPathMatcher engine (Some allow) (Some ign))"
proof (cases "\<exists>g\<in>set ign. isl (picomatch engine g)")
  case True
  then have "isl (mapE (picomatch engine) ign)" by (rule mapE_error)
  then show ?thesis
    unfolding createPathMatcher_anymatch anymatch_def matchers_plain [OF plain]
    by (auto split: sum.splits)
next
  case False
  with bad have "\<exists>g\<in>set allow. isl (createPattern engine g)"
    by (auto simp: createPattern_isl)
  then have "isl (mapE (createPattern engine) allow)" by (rule mapE_error)
  then show ?thesis
    unfolding createPathMatcher_anymatch anymatch_def matchers_plain [OF plain]
    by (auto split: sum.splits)
qed

lemma createPathMatcher_None:
  "createPathMatcher engine None toIgnore = createPathMatcher engine (Some []) toIgnore"
  "createPathMatcher engine toMatch None = createPathMatcher engine toMatch (Some [])"
  by (simp_all add: createPathMatcher_def)

text \<open>
  Claim C6 as stated fails on the empty allow list: the matcher is built, the path
  matches no ignore pattern, for there is none, and yet it tests false, where the
  claim has every path that matches no ignore pattern accepted.
\<close>

theorem C6_createPathMatcher_counterexample:
  "testWith (createPathMatcher (globEngine exampleEnv) (Some []) (Some [])) ''src/app.ts'' =
     Inr False"
  by (simp add: testWith_def createPathMatcher_def anymatch_def matchPatterns_def)

text \<open>
  Claim C6, amended. Let no allow pattern begin with \<^verbatim>\<open>!\<close>. If every pattern of the
  two lists compiles, \<^verbatim>\<open>createPathMatcher\<close> builds a matcher, and a path tests true
  if and only if some allow pattern equals the normalised path or matches it and
  no ignore pattern matches the normalised path; with an empty allow list no path
  tests true. If a pattern does not compile, as the empty one never does, building
  the matcher throws. An absent list counts as the empty one.
\<close>

theorem C6_createPathMatcher:
  "((\<forall>a\<in>set allow. \<not> isNegated a) \<and> (\<forall>g\<in>set allow \<union> set ign. \<not> isl (picomatch engine g)) \<longrightarrow>
      testWith (createPathMatcher engine (Some allow) (Some ign)) path =
        Inr ((\<exists>a\<in>set allow. a = normalizePath path False \<or>
                projr (picomatch engine a) (normalizePath path False)) \<and>
             (\<forall>i\<in>set ign. \<not> projr (picomatch engine i) (normalizePath path False)))) \<and>
   ((\<forall>g\<in>set ign. \<not> isl (picomatch engine g)) \<longrightarrow>
      testWith (createPathMatcher engine (Some []) (Some ign)) path = Inr False) \<and>
   ((\<forall>a\<in>set allow. \<not> isNegated a) \<and> (\<exists>g\<in>set allow \<union> set ign. isl (picomatch engine g)) \<longrightarrow>
      isl (createPathMatcher engine (Some allow) (Some ign))) \<and>
   isl (picomatch engine []) \<and>
   createPathMatcher engine None (Some ign) = createPathMatcher engine (Some []) (Some ign) \<and>
   createPathMatcher engine (Some allow) None = createPathMatcher engine (Some allow) (Some [])"
proof (intro conjI impI)
  assume h: "(\<forall>a\<in>set allow. \<not> isNegated a) \<and> (\<forall>g\<in>set allow \<union> set ign. \<not> isl (picomatch engine g))"
  then have built: "createPathMatcher engine (Some allow) (Some ign) =
      Inr (matchPatterns (map (\<lambda>a. projr (createPattern engine a)) allow)
                         (map (\<lambda>i. projr (picomatch engine i)) ign))"
    by (intro createPathMatcher_built) simp_all
  from h have pat: "\<forall>a\<in>set allow. projr (createPattern engine a) =
      (\<lambda>str. a = str \<or> projr (picomatch engine a) str)"
    by (simp add: createPattern_projr)
  show "testWith (createPathMatcher engine (Some allow) (Some ign)) path =
        Inr ((\<exists>a\<in>set allow. a = normalizePath path False \<or>
                projr (picomatch engine a) (normalizePath path False)) \<and>
             (\<forall>i\<in>set ign. \<not> projr (picomatch engine i) (normalizePath path False)))"
    unfolding built using pat
    by (auto simp: testWith_def matchPatterns_def Let_def list_ex_iff)
next
  assume h: "\<forall>g\<in>set ign. \<not> isl (picomatch engine g)"
  then have "createPathMatcher engine (Some []) (Some ign) =
      Inr (matchPatterns (map (\<lambda>a. projr (createPattern engine a)) [])
                         (map (\<lambda>i. projr (picomatch engine i)) ign))"
    by (intro createPathMatcher_built) simp_all
  then show "testWith (createPathMatcher engine (Some []) (Some ign)) path = Inr False"
    by (simp add: testWith_def matchPatterns_def Let_def)
next
  assume "(\<forall>a\<in>set allow. \<not> isNegated a) \<and> (\<exists>g\<in>set allow \<union> set ign. isl (picomatch engine g))"
  then show "isl (createPathMatcher engine (Some allow) (Some ign))"
    by (intro createPathMatcher_throws) simp_all
next
  show "isl (picomatch engine [])" by (simp add: picomatch_def)
next
  show "createPathMatcher engine None (Some ign) = createPathMatcher engine (Some []) (Some ign)"
    by (rule createPathMatcher_None)
next
  show "createPathMatcher engine (Some allow) None = createPathMatcher engine (Some allow) (Some [])"
    by (rule createPathMatcher_None)
qed

theorem C6_createPathMatcher_witness:
  "testWith (createPathMatcher exampleGlob
      (Some [''src/app.ts'', ''prisma/schema.prisma'']) (Some [''prisma/migrations'']))
      ''prisma/schema.prisma'' = Inr True \<and>
   testWith (createPathMatcher exampleGlob
      (Some [''src/app.ts'', ''prisma/migrations'']) (Some [''prisma/migrations'']))
      ''prisma/migrations'' = Inr False \<and>
   testWith (createPathMatcher exampleGlob (Some [''src/app.ts'']) (Some [])) ''src//app.ts'' =
      Inr True \<and>
   testWith (createPathMatcher exampleGlob (Some [''src//app.ts'']) (Some [])) ''src//app.ts'' =
      Inr False \<and>
   testWith (createPathMatcher exampleGlob (Some []) (Some [''prisma/migrations''])) ''src/app.ts'' =
      Inr False \<and>
   isl (createPathMatcher exampleGlob (Some [''src/app.ts'', '''']) (Some [''prisma/migrations'']))"
proof -
  have n: "\<forall>a\<in>set [''src/app.ts'', ''prisma/schema.prisma'']. \<not> isNegated a"
    "\<forall>a\<in>set [''src/app.ts'', ''prisma/migrations'']. \<not> isNegated a"
    "\<forall>a\<in>set [''src/app.ts'']. \<not> isNegated a"
    "\<forall>a\<in>set [''src//app.ts'']. \<not> isNegated a"
    "\<forall>a\<in>set [''src/app.ts'', '''']. \<not> isNegated a"
    by (simp_all add: isNegated_def)
  have c: "\<forall>g\<in>set [''src/app.ts'', ''prisma/schema.prisma''] \<union> set [''prisma/migrations''].
        \<not> isl (picomatch exampleGlob g)"
    "\<forall>g\<in>set [''src/app.ts'', ''prisma/migrations''] \<union> set [''prisma/migrations''].
        \<not> isl (picomatch exampleGlob g)"
    "\<forall>g\<in>set [''src/app.ts''] \<union> set []. \<not> isl (picomatch exampleGlob g)"
    "\<forall>g\<in>set [''src//app.ts''] \<union> set []. \<not> isl (picomatch exampleGlob g)"
    "\<forall>g\<in>set [''prisma/migrations'']. \<not> isl (picomatch exampleGlob g)"
    "\<exists>g\<in>set [''src/app.ts'', ''''] \<union> set [''prisma/migrations'']. isl (picomatch exampleGlob g)"
    by (simp_all add: picomatch_def exampleGlob_def)
  have p: "normalizePath ''prisma/schema.prisma'' False = ''prisma/schema.prisma''"
    "normalizePath ''prisma/migrations'' False = ''prisma/migrations''"
    "normalizePath ''src//app.ts'' False = ''src/app.ts''"
    by code_simp+
  have g: "\<And>g. g \<noteq> [] \<Longrightarrow> projr (picomatch exampleGlob g) = (\<lambda>p. g = p)"
    by (simp add: picomatch_def exampleGlob_def)
  from n c p
    C6_createPathMatcher [of "[''src/app.ts'', ''prisma/schema.prisma'']" "[''prisma/migrations'']"
      exampleGlob "''prisma/schema.prisma''"]
    C6_createPathMatcher [of "[''src/app.ts'', ''prisma/migrations'']" "[''prisma/migrations'']"
      exampleGlob "''prisma/migrations''"]
    C6_createPathMatcher [of "[''src/app.ts'']" "[]" exampleGlob "''src//app.ts''"]
    C6_createPathMatcher [of "[''src//app.ts'']" "[]" exampleGlob "''src//app.ts''"]
    C6_createPathMatcher [of "[]" "[''prisma/migrations'']" exampleGlob "''src/app.ts''"]
    C6_createPathMatcher [of "[''src/app.ts'', '''']" "[''prisma/migrations'']" exampleGlob "[]"]
  show ?thesis
    by (simp add: g)
qed

subsection \<open>indexOf\<close>

lemma indexFrom_range: "indexFrom s n k = - 1 \<or> int k \<le> indexFrom s n k"
  by (induction s n k rule: indexFrom.induct) auto

lemma indexFrom_start: "indexFrom s n k = int k \<longleftrightarrow> prefix n s"
proof (induction s n k rule: indexFrom.induct)
  case (1 n k)
  then show ?case by auto
next
  case (2 c cs n k)
  from indexFrom_range [of cs n "Suc k"] show ?case by auto
qed

lemma isPrefixOf_iff: "isPrefixOf v pre \<longleftrightarrow> prefix pre v"
  using indexFrom_start [of v pre 0] by (simp add: isPrefixOf_def indexOf_def)

subsection \<open>Scanning the rules\<close>

lemma some_all_defined:
  "\<forall>x\<in>set xs. \<not> isl (f x) \<Longrightarrow> some f xs = Inr (\<exists>x\<in>set xs. projr (f x))"
  by (induction xs) (auto split: sum.splits)

lemma some_Inr:
  "some f xs = Inr b \<Longrightarrow> b = (\<exists>x\<in>set xs. \<not> isl (f x) \<and> projr (f x))"
  by (induction xs) (auto split: sum.splits if_splits)



subsection \<open>Messages of the child\<close>

lemma onRequired_prefix:
  assumes "\<exists>r\<in>set (ignore (cfg env)). prefix r required"
  shows "onRequired env required s = Inr s"
  using assms by (simp add: onRequired_def list_ex_iff isPrefixOf_iff)

lemma onRequired_Inr:
  assumes "onRequired env required s = Inr s'"
  shows "s' = (if requiredAccepted env required
               then s\<lparr>watcher := addSilently required (watcher s)\<rparr> else s)"
proof (cases "\<exists>r\<in>set (ignore (cfg env)). prefix r required")
  case True
  with assms onRequired_prefix [OF True, of s] show ?thesis
    by (auto simp: requiredAccepted_def)
next
  case False
  then have np: "\<not> list_ex (isPrefixOf required) (ignore (cfg env))"
    by (simp add: list_ex_iff isPrefixOf_iff)
  with assms obtain b where b: "some (isRegExpMatch env required) (ignore (cfg env)) = Inr b"
    and s': "s' = (if \<not> b \<and> withinDepth env required
                   then s\<lparr>watcher := addSilently required (watcher s)\<rparr> else s)"
    by (auto simp: onRequired_def split: sum.splits)
  have "(\<not> isl (isRegExpMatch env required r) \<and> projr (isRegExpMatch env required r)) =
      (\<exists>re. newRegExp env r = Inr re \<and> re required)" for r
    by (cases "newRegExp env r") (simp_all add: isRegExpMatch_def)
  with some_Inr [OF b] have "b = (\<exists>r\<in>set (ignore (cfg env)).
      \<exists>re. newRegExp env r = Inr re \<and> re required)"
    by simp
  with False s' show ?thesis
    by (auto simp: requiredAccepted_def withinDepth_def)
qed



lemma handle_required_frame:
  "procs (handle env s (IpcRequired child required)) = procs s \<and>
   runner (handle env s (IpcRequired child required)) = runner s \<and>
   runnerRestarting (handle env s (IpcRequired child required)) = runnerRestarting s \<and>
   promises (handle env s (IpcRequired child required)) = promises s \<and>
   exitCode (handle env s (IpcRequired child required)) = exitCode s \<and>
   resolved (handle env s (IpcRequired child required)) = resolved s \<and>
   paused (watcher (handle env s (IpcRequired child required))) = paused (watcher s)"
proof (cases "onRequired env required s")
  case (Inl e)
  then show ?thesis by (simp add: emit_def)
next
  case (Inr t)
  from onRequired_Inr [OF this] Inr show ?thesis by (simp add: addSilently_def)
qed




subsection \<open>stopRunner\<close>

lemma stopRunner_noop:
  "exited (procs s ! child) \<or> stopping (procs s ! child) \<Longrightarrow> stopRunner child wt s = s"
  by (simp add: stopRunner_def)

lemma stopRunner_flags:
  assumes "child < length (procs s)" "\<not> exited (procs s ! child)" "\<not> stopping (procs s ! child)"
  shows "stopping (procs (stopRunner child wt s) ! child)"
    and "respawn (procs (stopRunner child wt s) ! child)"
    and "\<not> exited (procs (stopRunner child wt s) ! child)"
    and "connected (procs (stopRunner child wt s) ! child) = Some False"
    and "restartOnExit (procs (stopRunner child wt s) ! child) = restartOnExit (procs s ! child)"
  using assms
  by (cases "connected (procs s ! child)";
      auto simp: stopRunner_def Let_def disconnect_def sendSigterm_def emit_def)+

lemma stopRunner_effects:
  assumes "child < length (procs s)" "\<not> exited (procs s ! child)" "\<not> stopping (procs s ! child)"
  shows "effects (stopRunner child wt s) =
           effects s @
             (if connected (procs s ! child) = Some False then []
              else Disconnect child # (if wt = Some True then [] else [SendSigterm child]))"
  using assms
  by (auto simp: stopRunner_def Let_def disconnect_def sendSigterm_def emit_def)

lemma stopRunner_promises:
  assumes "child < length (procs s)" "\<not> exited (procs s ! child)" "\<not> stopping (procs s ! child)"
  shows "promises (stopRunner child wt s) =
           promises s @
             (if connected (procs s ! child) = Some False \<or> wt = Some True then []
              else [\<lparr>target = child, resolvesSession = False, settled = False\<rparr>])"
  using assms
  by (auto simp: stopRunner_def Let_def disconnect_def sendSigterm_def emit_def)

lemma stopRunner_stopping:
  assumes "child < length (procs s)"
  shows "exited (procs (stopRunner child wt s) ! child) \<or>
         stopping (procs (stopRunner child wt s) ! child)"
  using assms
  by (auto simp: stopRunner_def Let_def disconnect_def sendSigterm_def emit_def)

text \<open>
  Claim C3 as stated fails on a child whose channel is already closed: after the
  child has disconnected, the runner is neither exited nor stopping, and
  \<^verbatim>\<open>stopRunner\<close> with \<^verbatim>\<open>willTerminate\<close> false has no effect on the outside world: no
  termination signal is sent.
\<close>

theorem C3_stop_signal_counterexample:
  "\<not> exited (procs (run exampleEnv [ChildDisconnected 0]) ! 0) \<and>
   \<not> stopping (procs (run exampleEnv [ChildDisconnected 0]) ! 0) \<and>
   effects (stopRunner 0 (Some False) (run exampleEnv [ChildDisconnected 0])) =
     effects (run exampleEnv [ChildDisconnected 0]) \<and>
   SendSigterm 0 \<notin> set (effects (stopRunner 0 (Some False) (run exampleEnv [ChildDisconnected 0])))"
  by (simp add: session_defs exampleEnv_def)

text \<open>
  Claim C3, amended. For every call \<^verbatim>\<open>stopRunner(child, willTerminate)\<close> on a child
  that is neither exited nor stopping, the flags \<^verbatim>\<open>stopping\<close> and \<^verbatim>\<open>respawn\<close> are
  set. If \<^verbatim>\<open>child.connected\<close> is \<^verbatim>\<open>false\<close> nothing else happens. Otherwise the channel
  is disconnected, and a termination signal is sent after that if and only if
  \<^verbatim>\<open>willTerminate\<close> is not true.
\<close>

theorem C3_stop_signal:
  assumes "child < length (procs s)"
    and "\<not> exited (procs s ! child)" and "\<not> stopping (procs s ! child)"
  shows "stopping (procs (stopRunner child willTerminate s) ! child) \<and>
         respawn (procs (stopRunner child willTerminate s) ! child) \<and>
         effects (stopRunner child willTerminate s) =
           effects s @
             (if connected (procs s ! child) = Some False then []
              else Disconnect child #
                   (if willTerminate = Some True then [] else [SendSigterm child]))"
proof (intro conjI)
  from assms show "stopping (procs (stopRunner child willTerminate s) ! child)"
    by (rule stopRunner_flags)
  from assms show "respawn (procs (stopRunner child willTerminate s) ! child)"
    by (rule stopRunner_flags)
  from assms show "effects (stopRunner child willTerminate s) =
      effects s @
        (if connected (procs s ! child) = Some False then []
         else Disconnect child #
              (if willTerminate = Some True then [] else [SendSigterm child]))"
    by (rule stopRunner_effects)
qed

theorem C3_stop_signal_witness:
  "0 < length (procs (boot exampleEnv)) \<and>
   \<not> exited (procs (boot exampleEnv) ! 0) \<and>
   \<not> stopping (procs (boot exampleEnv) ! 0) \<and>
   connected (procs (boot exampleEnv) ! 0) = Some True \<and>
   effects (stopRunner 0 (Some True) (boot exampleEnv)) =
     effects (boot exampleEnv) @ [Disconnect 0] \<and>
   effects (stopRunner 0 (Some False) (boot exampleEnv)) =
     effects (boot exampleEnv) @ [Disconnect 0, SendSigterm 0] \<and>
   effects (stopRunner 0 None (boot exampleEnv)) =
     effects (boot exampleEnv) @ [Disconnect 0, SendSigterm 0] \<and>
   stopping (procs (stopRunner 0 (Some True) (boot exampleEnv)) ! 0) \<and>
   respawn (procs (stopRunner 0 (Some True) (boot exampleEnv)) ! 0)"
proof -
  have h: "0 < length (procs (boot exampleEnv))"
    "\<not> exited (procs (boot exampleEnv) ! 0)"
    "\<not> stopping (procs (boot exampleEnv) ! 0)"
    "connected (procs (boot exampleEnv) ! 0) = Some True"
    by (simp_all add: boot_def startRunner_def exampleEnv_def emit_def addSilently_def Let_def)
  from h C3_stop_signal [OF h(1-3), of "Some True"] C3_stop_signal [OF h(1-3), of "Some False"]
    C3_stop_signal [OF h(1-3), of None]
  show ?thesis by simp
qed

text \<open>
  Claim C4. A call of \<^verbatim>\<open>stopRunner\<close> on a process that is stopping or has exited
  returns the state as it was, and so does a second call on the same process after
  a first: no flag changes, nothing is disconnected, no signal is sent again.
\<close>

theorem C4_stop_idempotent:
  assumes "child < length (procs s)"
  shows "stopRunner child w2 (stopRunner child w1 s) = stopRunner child w1 s \<and>
         (exited (procs s ! child) \<or> stopping (procs s ! child) \<longrightarrow>
            stopRunner child w1 s = s)"
proof
  from stopRunner_stopping [OF assms, of w1]
  show "stopRunner child w2 (stopRunner child w1 s) = stopRunner child w1 s"
    by (rule stopRunner_noop)
next
  show "exited (procs s ! child) \<or> stopping (procs s ! child) \<longrightarrow>
      stopRunner child w1 s = s"
    by (simp add: stopRunner_noop)
qed

theorem C4_stop_idempotent_witness:
  "0 < length (procs (boot exampleEnv)) \<and>
   stopRunner 0 None (stopRunner 0 (Some True) (boot exampleEnv)) =
     stopRunner 0 (Some True) (boot exampleEnv) \<and>
   effects (stopRunner 0 None (stopRunner 0 None (boot exampleEnv))) =
     effects (boot exampleEnv) @ [Disconnect 0, SendSigterm 0]"
proof -
  have h: "0 < length (procs (boot exampleEnv))"
    by (simp add: boot_def startRunner_def exampleEnv_def emit_def addSilently_def Let_def)
  have e: "effects (stopRunner 0 None (boot exampleEnv)) =
     effects (boot exampleEnv) @ [Disconnect 0, SendSigterm 0]"
    by (simp add: boot_def startRunner_def exampleEnv_def emit_def addSilently_def Let_def
        stopRunner_def disconnect_def sendSigterm_def)
  from h e C4_stop_idempotent [OF h, of None "Some True"] C4_stop_idempotent [OF h, of None None]
  show ?thesis by simp
qed

lemma startRunner_fst: "fst (startRunner env s) = length (procs s)"
  by (simp add: startRunner_def Let_def)

lemma startRunner_procs: "procs (snd (startRunner env s)) = procs s @ [freshProcess env]"
  by (simp add: startRunner_def Let_def emit_def freshProcess_def split: option.splits)

lemma startRunner_frame:
  "runner (snd (startRunner env s)) = runner s"
  "runnerRestarting (snd (startRunner env s)) = runnerRestarting s"
  "promises (snd (startRunner env s)) = promises s"
  "exitCode (snd (startRunner env s)) = exitCode s"
  "resolved (snd (startRunner env s)) = resolved s"
  "paused (watcher (snd (startRunner env s))) = paused (watcher s)"
  by (simp_all add: startRunner_def Let_def emit_def addSilently_def split: option.splits)

lemma startRunner_effects:
  "effects (snd (startRunner env s)) = effects s @ [Fork (length (procs s)), WriteReadyFile]"
  by (simp add: startRunner_def Let_def emit_def split: option.splits)

lemma onExitRestart_simps:
  "procs (onExitRestart env s) = procs s @ [freshProcess env]"
  "runner (onExitRestart env s) = length (procs s)"
  "runnerRestarting (onExitRestart env s) = False"
  "promises (onExitRestart env s) = promises s"
  "exitCode (onExitRestart env s) = exitCode s"
  "resolved (onExitRestart env s) = resolved s"
  "paused (watcher (onExitRestart env s)) = paused (watcher s)"
  "effects (onExitRestart env s) = effects s @ [Fork (length (procs s)), WriteReadyFile]"
  by (simp_all add: onExitRestart_def split_beta startRunner_fst startRunner_procs
      startRunner_frame startRunner_effects)

lemma onExitRestart_funpow_procs:
  "procs ((onExitRestart env ^^ k) s) = procs s @ replicate k (freshProcess env)"
  by (induction k) (simp_all add: onExitRestart_simps replicate_append_same)

lemma onExitRestart_funpow_frame:
  "promises ((onExitRestart env ^^ k) s) = promises s"
  "exitCode ((onExitRestart env ^^ k) s) = exitCode s"
  "resolved ((onExitRestart env ^^ k) s) = resolved s"
  "paused (watcher ((onExitRestart env ^^ k) s)) = paused (watcher s)"
  by (induction k) (simp_all add: onExitRestart_simps)

lemma onExitRestart_funpow_runner:
  "runner ((onExitRestart env ^^ k) s) = (if k = 0 then runner s else length (procs s) + k - 1)"
  "runnerRestarting ((onExitRestart env ^^ k) s) = (if k = 0 then runnerRestarting s else False)"
  by (cases k; simp add: onExitRestart_simps onExitRestart_funpow_procs)+

subsection \<open>An invariant of every session\<close>

lemma wellFormed_boot: "wellFormed (boot env)"
  by (simp add: wellFormed_def boot_def split_beta startRunner_fst startRunner_procs
      startRunner_frame freshProcess_def)

lemma wellFormed_stopRunner:
  assumes "wellFormed s" and "child < length (procs s)"
  shows "wellFormed (stopRunner child wt s)"
proof (cases "exited (procs s ! child) \<or> stopping (procs s ! child)")
  case True
  with assms show ?thesis by (simp add: stopRunner_noop)
next
  case False
  with assms show ?thesis
    by (auto simp: wellFormed_def stopRunner_def Let_def disconnect_def sendSigterm_def
        emit_def nth_list_update)
qed

lemma wellFormed_onExitRestart_funpow:
  assumes "0 < k"
    and "\<forall>i<length (procs s).
        (exited (procs s ! i) \<longrightarrow> respawn (procs s ! i)) \<and>
        (stopping (procs s ! i) \<longrightarrow> respawn (procs s ! i)) \<and>
        (0 < restartOnExit (procs s ! i) \<longrightarrow> respawn (procs s ! i))"
  shows "wellFormed ((onExitRestart env ^^ k) s)"
  using assms
  by (auto simp: wellFormed_def onExitRestart_funpow_procs onExitRestart_funpow_runner
      nth_append freshProcess_def)

lemma wellFormed_restartRunner:
  assumes "wellFormed s"
  shows "wellFormed (restartRunner env file s)"
proof (cases "runnerRestarting s")
  case True
  with assms show ?thesis
    by (simp add: restartRunner_def Let_def emit_def wellFormed_def pause_def)
next
  case False
  note idle = this
  show ?thesis
  proof (cases "exited (procs s ! runner s)")
    case True
    with idle assms show ?thesis
      by (auto simp: restartRunner_def Let_def emit_def wellFormed_def pause_def split_beta
          startRunner_fst startRunner_procs startRunner_frame nth_append freshProcess_def)
  next
    case False
    with idle assms show ?thesis
      by (auto simp: restartRunner_def stopRunner_def Let_def emit_def wellFormed_def pause_def
          disconnect_def sendSigterm_def nth_list_update)
  qed
qed

lemma wellFormed_emitExit:
  assumes "wellFormed s" and "child < length (procs s)" and "exitCode s = None"
  shows "wellFormed (emitExit env child code s)"
proof (cases "exited (procs s ! child)")
  case True
  note gone = this
  show ?thesis
  proof (cases "restartOnExit (procs s ! child)")
    case 0
    with gone assms show ?thesis
      by (simp add: emitExit_def onChildExit_def Let_def)
  next
    case (Suc k)
    with gone have "emitExit env child code s =
        (if exitCode s \<noteq> None then s else (onExitRestart env ^^ Suc k) s)"
      by (simp add: emitExit_def onChildExit_def Let_def)
    moreover from assms(1) have "wellFormed ((onExitRestart env ^^ Suc k) s)"
      by (intro wellFormed_onExitRestart_funpow) (simp_all add: wellFormed_def)
    ultimately show ?thesis using assms(1) by simp
  qed
next
  case False
  note alive = this
  show ?thesis
  proof (cases "respawn (procs s ! child)")
    case False
    with alive assms show ?thesis
      by (simp add: emitExit_def onChildExit_def Let_def processExit_def emit_def wellFormed_def)
  next
    case True
    define s1 where "s1 = s\<lparr>procs := (procs s)[child := (procs s ! child)\<lparr>exited := True\<rparr>]\<rparr>"
    from alive True have e: "emitExit env child code s =
        (onExitRestart env ^^ restartOnExit (procs s ! child)) s1"
      using assms by (simp add: emitExit_def onChildExit_def Let_def s1_def wellFormed_def)
    have weak: "\<forall>i<length (procs s1).
        (exited (procs s1 ! i) \<longrightarrow> respawn (procs s1 ! i)) \<and>
        (stopping (procs s1 ! i) \<longrightarrow> respawn (procs s1 ! i)) \<and>
        (0 < restartOnExit (procs s1 ! i) \<longrightarrow> respawn (procs s1 ! i))"
      using assms True by (auto simp: s1_def wellFormed_def nth_list_update)
    show ?thesis
    proof (cases "restartOnExit (procs s ! child)")
      case (Suc k)
      with weak show ?thesis
        unfolding e by (intro wellFormed_onExitRestart_funpow) simp_all
    next
      case 0
      with assms alive True have "child \<noteq> runner s \<or> \<not> runnerRestarting s"
        by (auto simp: wellFormed_def)
      with 0 assms alive True show ?thesis
        unfolding e by (auto simp: s1_def wellFormed_def nth_list_update)
    qed
  qed
qed

lemma wellFormed_onError:
  "wellFormed s \<Longrightarrow> wellFormed (onError wt s)"
proof -
  assume wf: "wellFormed s"
  then have "wellFormed (emit ConsoleError s)" "runner (emit ConsoleError s) < length (procs (emit ConsoleError s))"
    by (simp_all add: wellFormed_def emit_def)
  from wellFormed_stopRunner [OF this, of wt] show ?thesis
    by (simp add: onError_def Let_def wellFormed_def)
qed

lemma wellFormed_handle:
  assumes "wellFormed s" and "exitCode s = None"
  shows "wellFormed (handle env s ev)"
proof (cases ev)
  case (FsNotification f)
  with assms show ?thesis by (simp add: coreListener_def wellFormed_restartRunner)
next
  case (Restart f)
  with assms show ?thesis by (simp add: wellFormed_restartRunner)
next
  case (ChildExit child code sig)
  with assms show ?thesis by (simp add: wellFormed_emitExit)
next
  case (ChildDisconnected child)
  with assms show ?thesis by (auto simp: wellFormed_def nth_list_update)
next
  case (IpcRequired child required)
  with assms handle_required_frame [of env s child required] show ?thesis
    by (simp add: wellFormed_def)
next
  case (IpcError child wt)
  with assms show ?thesis by (simp add: wellFormed_onError)
next
  case (IpcReady child)
  with assms show ?thesis by (simp add: onReady_def emit_def wellFormed_def)
next
  case (ProcessSignal sg)
  with assms show ?thesis
    by (auto simp: stopRunnerOnBeforeExit_def resolveSession_def sendSigterm_def emit_def
        wellFormed_def)
next
  case (SigtermSettled k ok)
  with assms show ?thesis
    by (auto simp: onSigtermSettled_def resolveSession_def emit_def wellFormed_def Let_def)
qed

lemma wellFormed_step: "wellFormed s \<Longrightarrow> wellFormed (step env s ev)"
  by (cases "exitCode s") (simp_all add: step_def wellFormed_handle)

lemma wellFormed_foldl: "wellFormed s \<Longrightarrow> wellFormed (foldl (step env) s evs)"
  by (induction evs arbitrary: s) (simp_all add: wellFormed_step)

lemma wellFormed_run: "wellFormed (run env evs)"
  by (simp add: run_def wellFormed_foldl wellFormed_boot)

text \<open>
  The invariant holds in every state a session reaches, whatever the events.
\<close>

theorem session_invariant: "wellFormed (run env evs)"
  by (rule wellFormed_run)

theorem session_invariant_witness:
  "runner (run exampleEnv [IpcError 0 (Some True), Restart ''src/app.ts'']) = 0 \<and>
   stopping (procs (run exampleEnv [IpcError 0 (Some True), Restart ''src/app.ts'']) ! 0) \<and>
   runnerRestarting (run exampleEnv [IpcError 0 (Some True), Restart ''src/app.ts'']) \<and>
   respawn (procs (run exampleEnv [IpcError 0 (Some True), Restart ''src/app.ts'']) ! 0) \<and>
   restartOnExit (procs (run exampleEnv [IpcError 0 (Some True), Restart ''src/app.ts'']) ! 0) = 1 \<and>
   \<not> exited (procs (run exampleEnv [IpcError 0 (Some True), Restart ''src/app.ts'']) ! 0)"
proof -
  let ?s = "run exampleEnv [IpcError 0 (Some True), Restart ''src/app.ts'']"
  have h: "runner ?s = 0" "stopping (procs ?s ! 0)" "runnerRestarting ?s"
    "0 < length (procs ?s)"
    by (simp_all add: session_defs exampleEnv_def)
  from session_invariant [of exampleEnv "[IpcError 0 (Some True), Restart ''src/app.ts'']"] h
  show ?thesis by (auto simp: wellFormed_def)
qed

subsection \<open>Runs\<close>

lemma run_append: "run env (evs @ rest) = foldl (step env) (run env evs) rest"
  by (simp add: run_def)

lemma run_snoc: "run env (evs @ [ev]) = step env (run env evs) ev"
  by (simp add: run_def)

lemma step_terminated: "exitCode s \<noteq> None \<Longrightarrow> step env s ev = s"
  by (simp add: step_def)

lemma foldl_step_terminated: "exitCode s \<noteq> None \<Longrightarrow> foldl (step env) s evs = s"
  by (induction evs) (simp_all add: step_terminated)

subsection \<open>The exit of a runner nobody asked to stop\<close>

lemma emitExit_fatal:
  assumes "exitCode s = None" and "\<not> exited (procs s ! child)" and "\<not> respawn (procs s ! child)"
  shows "emitExit env child code s = processExit (case code of Some c \<Rightarrow> c | None \<Rightarrow> 1) s"
  using assms by (simp add: emitExit_def onChildExit_def Let_def processExit_def emit_def)

text \<open>
  Claim C2. In every state a session reaches, if the respawn flag of the runner is
  not set (then no stop was requested for it and it has not exited) and the runner
  exits with a code, the session terminates with that code: \<^verbatim>\<open>process.exit\<close> is the
  only effect, no process is forked, and no later event changes anything.
\<close>

theorem C2_unexpected_exit_is_fatal:
  assumes "exitCode (run env evs) = None"
    and "\<not> respawn (procs (run env evs) ! runner (run env evs))"
  shows "\<not> stopping (procs (run env evs) ! runner (run env evs)) \<and>
         \<not> exited (procs (run env evs) ! runner (run env evs)) \<and>
         exitCode (run env (evs @ [ChildExit (runner (run env evs)) (Some c) sig])) = Some c \<and>
         procs (run env (evs @ [ChildExit (runner (run env evs)) (Some c) sig])) =
           procs (run env evs) \<and>
         runner (run env (evs @ [ChildExit (runner (run env evs)) (Some c) sig])) =
           runner (run env evs) \<and>
         effects (run env (evs @ [ChildExit (runner (run env evs)) (Some c) sig])) =
           effects (run env evs) @ [ProcessExit c] \<and>
         run env (evs @ [ChildExit (runner (run env evs)) (Some c) sig] @ rest) =
           run env (evs @ [ChildExit (runner (run env evs)) (Some c) sig])"
proof -
  define s where "s = run env evs"
  have wf: "wellFormed s" by (simp add: s_def wellFormed_run)
  from assms have live: "exitCode s = None" and nr: "\<not> respawn (procs s ! runner s)"
    by (simp_all add: s_def)
  from wf have r: "runner s < length (procs s)" by (simp add: wellFormed_def)
  with wf nr have flags: "\<not> stopping (procs s ! runner s)" "\<not> exited (procs s ! runner s)"
    by (auto simp: wellFormed_def)
  have st: "step env s (ChildExit (runner s) (Some c) sig) = processExit c s"
    using live r flags nr by (simp add: step_def emitExit_fatal)
  have "exitCode (processExit c s) \<noteq> None" by (simp add: processExit_def emit_def)
  then have "foldl (step env) (processExit c s) rest = processExit c s"
    by (rule foldl_step_terminated)
  with flags st show ?thesis
    unfolding run_append s_def [symmetric]
    by (simp add: processExit_def emit_def)
qed

theorem C2_unexpected_exit_is_fatal_witness:
  "exitCode (run exampleEnv []) = None \<and>
   \<not> respawn (procs (run exampleEnv []) ! runner (run exampleEnv [])) \<and>
   exitCode (run exampleEnv ([] @ [ChildExit 0 (Some 1) None])) = Some 1 \<and>
   length (procs (run exampleEnv ([] @ [ChildExit 0 (Some 1) None] @ [Restart ''src/app.ts'']))) = 1"
proof -
  have h: "exitCode (run exampleEnv []) = None"
    "\<not> respawn (procs (run exampleEnv []) ! runner (run exampleEnv []))"
    "runner (run exampleEnv []) = 0"
    "length (procs (run exampleEnv [])) = 1"
    by (simp_all add: session_defs exampleEnv_def)
  from h C2_unexpected_exit_is_fatal [OF h(1,2), of 1 None "[Restart ''src/app.ts'']"]
  show ?thesis by simp
qed

subsection \<open>Restart requests during a restart\<close>

lemma restartRunner_coalesced:
  assumes "runnerRestarting s"
  shows "restartRunner env f s =
           s\<lparr>watcher := pause (watcher s),
             effects := effects s @
               (if Some f = tsConfigPath env then [CompilerInit] else []) @ [CompileChanged f]\<rparr>"
  using assms by (simp add: restartRunner_def Let_def emit_def)

lemma burst_coalesced:
  assumes "runnerRestarting s" and "exitCode s = None"
  shows "procs (foldl (step env) s (map Restart files)) = procs s \<and>
         promises (foldl (step env) s (map Restart files)) = promises s \<and>
         runner (foldl (step env) s (map Restart files)) = runner s \<and>
         runnerRestarting (foldl (step env) s (map Restart files)) \<and>
         exitCode (foldl (step env) s (map Restart files)) = None \<and>
         filter isFork (effects (foldl (step env) s (map Restart files))) =
           filter isFork (effects s) \<and>
         filter isStop (effects (foldl (step env) s (map Restart files))) =
           filter isStop (effects s)"
  using assms
proof (induction files arbitrary: s)
  case Nil
  then show ?case by simp
next
  case (Cons f files)
  let ?t = "step env s (Restart f)"
  from Cons.prems have t: "?t = restartRunner env f s"
    by (simp add: step_def)
  with Cons.prems have "runnerRestarting ?t" "exitCode ?t = None"
    by (simp_all add: restartRunner_coalesced)
  from Cons.IH [OF this] Cons.prems show ?case
    by (simp add: t restartRunner_coalesced isFork_def isStop_def)
qed

text \<open>
  Claim C1. In every state a session reaches with a restart in flight, any number
  of further calls of \<^verbatim>\<open>restartRunner\<close> leaves the processes (their flags and their
  exit listeners), the pending signals, the runner and the flag as they are and
  forks, disconnects and signals nothing; the exit of the runner that follows
  forks exactly one replacement, which becomes the runner, and ends the restart.
\<close>

theorem C1_restart_coalescing:
  assumes "exitCode (run env evs) = None" and "runnerRestarting (run env evs)"
  shows "procs (run env (evs @ map Restart files)) = procs (run env evs) \<and>
         promises (run env (evs @ map Restart files)) = promises (run env evs) \<and>
         runner (run env (evs @ map Restart files)) = runner (run env evs) \<and>
         runnerRestarting (run env (evs @ map Restart files)) \<and>
         filter isFork (effects (run env (evs @ map Restart files))) =
           filter isFork (effects (run env evs)) \<and>
         filter isStop (effects (run env (evs @ map Restart files))) =
           filter isStop (effects (run env evs)) \<and>
         procs (run env (evs @ map Restart files @ [ChildExit (runner (run env evs)) code sig])) =
           (procs (run env evs))
             [runner (run env evs) := (procs (run env evs) ! runner (run env evs))\<lparr>exited := True\<rparr>]
           @ [freshProcess env] \<and>
         filter isFork
             (effects (run env (evs @ map Restart files @ [ChildExit (runner (run env evs)) code sig]))) =
           filter isFork (effects (run env evs)) @ [Fork (length (procs (run env evs)))] \<and>
         runner (run env (evs @ map Restart files @ [ChildExit (runner (run env evs)) code sig])) =
           length (procs (run env evs)) \<and>
         \<not> runnerRestarting
             (run env (evs @ map Restart files @ [ChildExit (runner (run env evs)) code sig]))"
proof -
  define s where "s = run env evs"
  define b where "b = foldl (step env) s (map Restart files)"
  have wf: "wellFormed s" by (simp add: s_def wellFormed_run)
  from assms have live: "exitCode s = None" and busy: "runnerRestarting s"
    by (simp_all add: s_def)
  from burst_coalesced [OF busy live, of env files]
  have b: "procs b = procs s" "promises b = promises s" "runner b = runner s"
    "runnerRestarting b" "exitCode b = None"
    "filter isFork (effects b) = filter isFork (effects s)"
    "filter isStop (effects b) = filter isStop (effects s)"
    by (simp_all add: b_def)
  from wf busy have r: "runner s < length (procs s)" "\<not> exited (procs s ! runner s)"
    "restartOnExit (procs s ! runner s) = 1" "respawn (procs s ! runner s)"
    by (auto simp: wellFormed_def)
  define a where "a = step env b (ChildExit (runner s) code sig)"
  from b r have a: "a = onExitRestart env
      (b\<lparr>procs := (procs s)[runner s := (procs s ! runner s)\<lparr>exited := True\<rparr>]\<rparr>)"
    by (simp add: a_def step_def emitExit_def onChildExit_def Let_def)
  have "run env (evs @ map Restart files) = b"
    by (simp add: run_append s_def b_def)
  moreover have "run env (evs @ map Restart files @ [ChildExit (runner s) code sig]) = a"
    by (simp add: run_append s_def b_def a_def)
  ultimately show ?thesis
    unfolding s_def [symmetric] using b
    by (simp add: a onExitRestart_simps isFork_def)
qed

theorem C1_restart_coalescing_witness:
  "exitCode (run exampleEnv [Restart ''src/app.ts'']) = None \<and>
   runnerRestarting (run exampleEnv [Restart ''src/app.ts'']) \<and>
   length (procs (run exampleEnv
     ([Restart ''src/app.ts''] @ map Restart [''src/a.ts'', ''src/b.ts'', ''src/c.ts'']))) = 1 \<and>
   length (procs (run exampleEnv
     ([Restart ''src/app.ts''] @ map Restart [''src/a.ts'', ''src/b.ts'', ''src/c.ts''] @
      [ChildExit 0 None (Some ''SIGTERM'')]))) = 2 \<and>
   filter isFork (effects (run exampleEnv
     ([Restart ''src/app.ts''] @ map Restart [''src/a.ts'', ''src/b.ts'', ''src/c.ts''] @
      [ChildExit 0 None (Some ''SIGTERM'')]))) = [Fork 0, Fork 1]"
proof -
  have h: "exitCode (run exampleEnv [Restart ''src/app.ts'']) = None"
    "runnerRestarting (run exampleEnv [Restart ''src/app.ts''])"
    "runner (run exampleEnv [Restart ''src/app.ts'']) = 0"
    "length (procs (run exampleEnv [Restart ''src/app.ts''])) = 1"
    "filter isFork (effects (run exampleEnv [Restart ''src/app.ts''])) = [Fork 0]"
    by (simp_all add: session_defs exampleEnv_def isFork_def)
  from h C1_restart_coalescing [OF h(1,2), of "[''src/a.ts'', ''src/b.ts'', ''src/c.ts'']"
      None "Some ''SIGTERM''"]
  show ?thesis by simp
qed

subsection \<open>The exited flag\<close>

lemma exited_list_update:
  "exited p = exited (ps ! k) \<Longrightarrow> exited (ps[k := p] ! i) = exited (ps ! i)"
  by (cases "k < length ps") (auto simp: nth_list_update list_update_beyond)

lemma stopRunner_exited:
  "exited (procs (stopRunner child wt s) ! i) = exited (procs s ! i)"
  by (simp add: stopRunner_def Let_def disconnect_def sendSigterm_def emit_def
      exited_list_update)

lemma stopRunner_length: "length (procs (stopRunner child wt s)) = length (procs s)"
  by (auto simp: stopRunner_def Let_def disconnect_def sendSigterm_def emit_def)

lemma restartRunner_exited:
  "i < length (procs s) \<Longrightarrow>
   exited (procs (restartRunner env f s) ! i) = exited (procs s ! i)"
  by (simp add: restartRunner_def Let_def emit_def stopRunner_exited split_beta
      startRunner_procs nth_append exited_list_update)

lemma onChildExit_exited_noop:
  "exited (procs s ! child) \<Longrightarrow> onChildExit child code s = s"
  by (simp add: onChildExit_def)

lemma emitExit_exited:
  assumes "i < length (procs s)"
    and "exited (procs (emitExit env child code s) ! i) \<noteq> exited (procs s ! i)"
  shows "i = child \<and> \<not> exited (procs s ! i) \<and> exited (procs (emitExit env child code s) ! i)"
proof (cases "child < length (procs s)")
  case True
  with assms show ?thesis
    by (auto simp: emitExit_def onChildExit_def Let_def processExit_def emit_def
        onExitRestart_funpow_procs nth_append nth_list_update split: if_splits)
next
  case False
  with assms show ?thesis
    by (auto simp: emitExit_def onChildExit_def Let_def processExit_def emit_def
        onExitRestart_funpow_procs nth_append list_update_beyond split: if_splits)
qed

lemma handle_exited:
  assumes "i < length (procs s)"
    and "exited (procs (handle env s ev) ! i) \<noteq> exited (procs s ! i)"
  shows "(\<exists>code sig. ev = ChildExit i code sig) \<and> \<not> exited (procs s ! i) \<and>
         exited (procs (handle env s ev) ! i)"
proof (cases ev)
  case (ChildExit child code sig)
  with assms emitExit_exited [of i s env child code] show ?thesis
    by (auto split: if_splits)
next
  case (FsNotification f)
  with assms show ?thesis
    by (auto simp: coreListener_def restartRunner_exited split: if_splits)
next
  case (Restart f)
  with assms show ?thesis by (simp add: restartRunner_exited)
next
  case (ChildDisconnected child)
  with assms show ?thesis by (auto simp: exited_list_update split: if_splits)
next
  case (IpcRequired child required)
  with assms handle_required_frame [of env s child required] show ?thesis
    by simp
next
  case (IpcError child wt)
  with assms show ?thesis
    by (auto simp: onError_def Let_def stopRunner_exited emit_def split: if_splits)
next
  case (IpcReady child)
  with assms show ?thesis by (auto simp: onReady_def emit_def split: if_splits)
next
  case (ProcessSignal sg)
  with assms show ?thesis
    by (auto simp: stopRunnerOnBeforeExit_def resolveSession_def sendSigterm_def emit_def
        split: if_splits)
next
  case (SigtermSettled k ok)
  with assms show ?thesis
    by (auto simp: onSigtermSettled_def resolveSession_def emit_def Let_def split: if_splits)
qed

lemma step_exited:
  assumes "i < length (procs s)"
    and "exited (procs (step env s ev) ! i) \<noteq> exited (procs s ! i)"
  shows "(\<exists>code sig. ev = ChildExit i code sig) \<and> \<not> exited (procs s ! i) \<and>
         exited (procs (step env s ev) ! i)"
  using assms handle_exited [of i s env ev] by (auto simp: step_def split: if_splits)

lemma step_second_exit:
  assumes "child < length (procs s)" and "exited (procs s ! child)" and "i < length (procs s)"
  shows "procs (step env s (ChildExit child code sig)) ! i = procs s ! i \<and>
         exitCode (step env s (ChildExit child code sig)) = exitCode s"
  using assms
  by (auto simp: step_def emitExit_def onChildExit_def Let_def onExitRestart_funpow_procs
      onExitRestart_funpow_frame nth_append)

text \<open>
  Claim C5. \<^verbatim>\<open>stopRunner\<close> leaves the \<^verbatim>\<open>exited\<close> flag of every process as it is; a
  forked process starts with the flag unset; an event changes the flag of a
  process only if it is the exit of that process, and then from unset to set; a
  flag that is set stays set; and on a process whose flag is set the exit handler
  of \<^verbatim>\<open>startRunner\<close> returns the state as it was, so that a second exit leaves every
  process and the session's exit code unchanged.
\<close>

theorem C5_exited_flag:
  "exited (procs (stopRunner child willTerminate s) ! i) = exited (procs s ! i) \<and>
   \<not> exited (procs (snd (startRunner env s)) ! fst (startRunner env s)) \<and>
   (i < length (procs s) \<and> exited (procs (step env s ev) ! i) \<noteq> exited (procs s ! i) \<longrightarrow>
      (\<exists>code sig. ev = ChildExit i code sig) \<and> \<not> exited (procs s ! i) \<and>
      exited (procs (step env s ev) ! i)) \<and>
   (i < length (procs s) \<and> exited (procs s ! i) \<longrightarrow> exited (procs (step env s ev) ! i)) \<and>
   (exited (procs s ! child) \<longrightarrow> onChildExit child code s = s) \<and>
   (child < length (procs s) \<and> exited (procs s ! child) \<and> i < length (procs s) \<longrightarrow>
      procs (step env s (ChildExit child code sig)) ! i = procs s ! i \<and>
      exitCode (step env s (ChildExit child code sig)) = exitCode s)"
proof (intro conjI impI)
  show "exited (procs (stopRunner child willTerminate s) ! i) = exited (procs s ! i)"
    by (rule stopRunner_exited)
  show "\<not> exited (procs (snd (startRunner env s)) ! fst (startRunner env s))"
    by (simp add: startRunner_fst startRunner_procs freshProcess_def)
  show "exited (procs (step env s ev) ! i)"
    if "i < length (procs s) \<and> exited (procs s ! i)"
    using that step_exited [of i s env ev] by blast
  show "onChildExit child code s = s" if "exited (procs s ! child)"
    using that by (rule onChildExit_exited_noop)
next
  assume a: "i < length (procs s) \<and> exited (procs (step env s ev) ! i) \<noteq> exited (procs s ! i)"
  with step_exited [of i s env ev]
  show "\<exists>code sig. ev = ChildExit i code sig" "\<not> exited (procs s ! i)"
    "exited (procs (step env s ev) ! i)"
    by blast+
next
  assume a: "child < length (procs s) \<and> exited (procs s ! child) \<and> i < length (procs s)"
  with step_second_exit [of child s i env code sig]
  show "procs (step env s (ChildExit child code sig)) ! i = procs s ! i"
    "exitCode (step env s (ChildExit child code sig)) = exitCode s"
    by blast+
qed

theorem C5_exited_flag_witness:
  "0 < length (procs (run exampleEnv [Restart ''src/app.ts''])) \<and>
   \<not> exited (procs (run exampleEnv [Restart ''src/app.ts'']) ! 0) \<and>
   exited (procs (step exampleEnv (run exampleEnv [Restart ''src/app.ts''])
              (ChildExit 0 None (Some ''SIGTERM''))) ! 0) \<and>
   exited (procs (run exampleEnv [Restart ''src/app.ts'', ChildExit 0 None (Some ''SIGTERM'')]) ! 0) \<and>
   0 < length (procs (run exampleEnv [Restart ''src/app.ts'', ChildExit 0 None (Some ''SIGTERM'')])) \<and>
   exited (procs (step exampleEnv
       (run exampleEnv [Restart ''src/app.ts'', ChildExit 0 None (Some ''SIGTERM'')])
       (ChildExit 0 None (Some ''SIGTERM''))) ! 0) \<and>
   onChildExit 0 None (run exampleEnv [Restart ''src/app.ts'', ChildExit 0 None (Some ''SIGTERM'')]) =
     run exampleEnv [Restart ''src/app.ts'', ChildExit 0 None (Some ''SIGTERM'')] \<and>
   procs (step exampleEnv
       (run exampleEnv [Restart ''src/app.ts'', ChildExit 0 None (Some ''SIGTERM'')])
       (ChildExit 0 None (Some ''SIGTERM''))) ! 0 =
     procs (run exampleEnv [Restart ''src/app.ts'', ChildExit 0 None (Some ''SIGTERM'')]) ! 0"
proof -
  let ?s = "run exampleEnv [Restart ''src/app.ts'']"
  let ?t = "run exampleEnv [Restart ''src/app.ts'', ChildExit 0 None (Some ''SIGTERM'')]"
  have s: "0 < length (procs ?s)" "\<not> exited (procs ?s ! 0)"
    "exited (procs (step exampleEnv ?s (ChildExit 0 None (Some ''SIGTERM''))) ! 0)"
    by (simp_all add: session_defs exampleEnv_def)
  have t: "0 < length (procs ?t)" "exited (procs ?t ! 0)"
    by (simp_all add: session_defs exampleEnv_def)
  from s t
    C5_exited_flag [of 0 None ?s 0 exampleEnv "ChildExit 0 None (Some ''SIGTERM'')" None
      "Some ''SIGTERM''"]
    C5_exited_flag [of 0 None ?t 0 exampleEnv "ChildExit 0 None (Some ''SIGTERM'')" None
      "Some ''SIGTERM''"]
  show ?thesis by simp
qed

subsection \<open>An error of the child\<close>

text \<open>
  An \<^verbatim>\<open>error\<close> message with \<^verbatim>\<open>willTerminate\<close> true, received while the runner is
  neither exited nor stopping: the error is printed, the runner is marked stopping
  and respawn and its channel disconnected if it was open, no termination signal
  is sent, and the watcher is resumed.
\<close>

theorem error_will_terminate:
  assumes "exitCode s = None" and "child < length (procs s)"
    and "runner s < length (procs s)"
    and "\<not> exited (procs s ! runner s)" and "\<not> stopping (procs s ! runner s)"
  shows "effects (step env s (IpcError child (Some True))) =
           effects s @ ConsoleError #
             (if connected (procs s ! runner s) = Some False then [] else [Disconnect (runner s)]) \<and>
         promises (step env s (IpcError child (Some True))) = promises s \<and>
         stopping (procs (step env s (IpcError child (Some True))) ! runner s) \<and>
         respawn (procs (step env s (IpcError child (Some True))) ! runner s) \<and>
         \<not> paused (watcher (step env s (IpcError child (Some True))))"
proof -
  define t where "t = emit ConsoleError s"
  from assms have t: "runner t = runner s" "runner s < length (procs t)"
    "\<not> exited (procs t ! runner s)" "\<not> stopping (procs t ! runner s)"
    "effects t = effects s @ [ConsoleError]" "promises t = promises s"
    "connected (procs t ! runner s) = connected (procs s ! runner s)"
    by (simp_all add: t_def emit_def)
  from assms have st: "step env s (IpcError child (Some True)) =
      (stopRunner (runner s) (Some True) t)\<lparr>watcher := resume (watcher (stopRunner (runner s) (Some True) t))\<rparr>"
    by (simp add: step_def onError_def Let_def t_def emit_def)
  from stopRunner_flags(1,2) [OF t(2-4), of "Some True"]
    stopRunner_effects [OF t(2-4), of "Some True"]
    stopRunner_promises [OF t(2-4), of "Some True"] t(5-7)
  show ?thesis
    unfolding st by (simp add: resume_def)
qed

theorem error_will_terminate_witness:
  "exitCode (boot exampleEnv) = None \<and> 0 < length (procs (boot exampleEnv)) \<and>
   runner (boot exampleEnv) = 0 \<and>
   \<not> exited (procs (boot exampleEnv) ! 0) \<and> \<not> stopping (procs (boot exampleEnv) ! 0) \<and>
   effects (step exampleEnv (boot exampleEnv) (IpcError 0 (Some True))) =
     effects (boot exampleEnv) @ [ConsoleError, Disconnect 0] \<and>
   \<not> paused (watcher (step exampleEnv (boot exampleEnv) (IpcError 0 (Some True))))"
proof -
  have h: "exitCode (boot exampleEnv) = None" "0 < length (procs (boot exampleEnv))"
    "runner (boot exampleEnv) < length (procs (boot exampleEnv))"
    "\<not> exited (procs (boot exampleEnv) ! runner (boot exampleEnv))"
    "\<not> stopping (procs (boot exampleEnv) ! runner (boot exampleEnv))"
    "runner (boot exampleEnv) = 0"
    "connected (procs (boot exampleEnv) ! 0) = Some True"
    by (simp_all add: session_defs exampleEnv_def)
  from h error_will_terminate [OF h(1-5), of exampleEnv]
  show ?thesis by simp
qed

subsection \<open>A restart cycle\<close>

text \<open>
  Claim C8. From every state a session reaches with the watcher not paused, no
  restart in flight and the runner not exited, a file change that reaches
  \<^verbatim>\<open>restartRunner\<close> pauses the watcher and stops the runner; the runner's exit forks
  the replacement with the watcher still paused; and the \<^verbatim>\<open>Ready\<close> message of the
  replacement leaves the watcher not paused again.
\<close>

theorem C8_pause_resume_symmetry:
  assumes "exitCode (run env evs) = None"
    and "\<not> paused (watcher (run env evs))"
    and "\<not> runnerRestarting (run env evs)"
    and "\<not> exited (procs (run env evs) ! runner (run env evs))"
    and "trigger = Restart f \<or> (trigger = FsNotification f \<and> \<not> isIgnoredByCoreListener env f)"
  shows "paused (watcher (run env (evs @ [trigger]))) \<and>
         runnerRestarting (run env (evs @ [trigger])) \<and>
         stopping (procs (run env (evs @ [trigger])) ! runner (run env evs)) \<and>
         length (procs (run env (evs @ [trigger]))) = length (procs (run env evs)) \<and>
         exited (procs (run env (evs @ [trigger, ChildExit (runner (run env evs)) code sig]))
                   ! runner (run env evs)) \<and>
         length (procs (run env (evs @ [trigger, ChildExit (runner (run env evs)) code sig]))) =
           Suc (length (procs (run env evs))) \<and>
         runner (run env (evs @ [trigger, ChildExit (runner (run env evs)) code sig])) =
           length (procs (run env evs)) \<and>
         \<not> runnerRestarting (run env (evs @ [trigger, ChildExit (runner (run env evs)) code sig])) \<and>
         paused (watcher (run env (evs @ [trigger, ChildExit (runner (run env evs)) code sig]))) \<and>
         \<not> paused (watcher (run env (evs @
             [trigger, ChildExit (runner (run env evs)) code sig,
              IpcReady (length (procs (run env evs)))]))) \<and>
         exitCode (run env (evs @
             [trigger, ChildExit (runner (run env evs)) code sig,
              IpcReady (length (procs (run env evs)))])) = None"
proof -
  define s where "s = run env evs"
  have wf: "wellFormed s" by (simp add: s_def wellFormed_run)
  from assms(1-4) have s: "exitCode s = None" "\<not> paused (watcher s)" "\<not> runnerRestarting s"
    "\<not> exited (procs s ! runner s)"
    by (simp_all add: s_def)
  from wf have r: "runner s < length (procs s)" by (simp add: wellFormed_def)
  define s1 where "s1 = restartRunner env f s"
  from assms(5) s have t: "step env s trigger = s1"
    by (auto simp: step_def coreListener_def s1_def)
  have wf1: "wellFormed s1" unfolding s1_def using wf by (rule wellFormed_restartRunner)
  from s r have s1: "paused (watcher s1)" "runnerRestarting s1" "runner s1 = runner s"
    "length (procs s1) = length (procs s)" "exitCode s1 = None"
    "stopping (procs s1 ! runner s)" "\<not> exited (procs s1 ! runner s)"
    by (auto simp: s1_def restartRunner_def stopRunner_def Let_def emit_def pause_def
        disconnect_def sendSigterm_def)
  with wf1 have l: "restartOnExit (procs s1 ! runner s) = 1" "respawn (procs s1 ! runner s)"
    by (auto simp: wellFormed_def)
  define s2 where "s2 = step env s1 (ChildExit (runner s) code sig)"
  from s1 l r have s2: "s2 = onExitRestart env
      (s1\<lparr>procs := (procs s1)[runner s := (procs s1 ! runner s)\<lparr>exited := True\<rparr>]\<rparr>)"
    by (simp add: s2_def step_def emitExit_def onChildExit_def Let_def)
  define s3 where "s3 = step env s2 (IpcReady (length (procs s)))"
  from s1 r have s3: "s3 = onReady s2"
    by (simp add: s3_def step_def s2 onExitRestart_simps)
  have "run env (evs @ [trigger]) = s1"
    "run env (evs @ [trigger, ChildExit (runner s) code sig]) = s2"
    "run env (evs @ [trigger, ChildExit (runner s) code sig, IpcReady (length (procs s))]) = s3"
    by (simp_all add: run_append s_def [symmetric] t s2_def s3_def)
  then show ?thesis
    unfolding s_def [symmetric] using s1 r
    by (simp add: s3 s2 onExitRestart_simps onReady_def emit_def resume_def nth_append)
qed

theorem C8_pause_resume_symmetry_witness:
  "exitCode (run exampleEnv []) = None \<and>
   \<not> paused (watcher (run exampleEnv [])) \<and>
   \<not> runnerRestarting (run exampleEnv []) \<and>
   \<not> exited (procs (run exampleEnv []) ! runner (run exampleEnv [])) \<and>
   \<not> isIgnoredByCoreListener exampleEnv ''src/app.ts'' \<and>
   paused (watcher (run exampleEnv ([] @ [FsNotification ''src/app.ts'']))) \<and>
   \<not> paused (watcher (run exampleEnv ([] @
       [FsNotification ''src/app.ts'', ChildExit 0 None (Some ''SIGTERM''), IpcReady 1])))"
proof -
  have h: "exitCode (run exampleEnv []) = None"
    "\<not> paused (watcher (run exampleEnv []))"
    "\<not> runnerRestarting (run exampleEnv [])"
    "\<not> exited (procs (run exampleEnv []) ! runner (run exampleEnv []))"
    "FsNotification ''src/app.ts'' = Restart ''src/app.ts'' \<or>
      (FsNotification ''src/app.ts'' = FsNotification ''src/app.ts'' \<and>
       \<not> isIgnoredByCoreListener exampleEnv ''src/app.ts'')"
    "runner (run exampleEnv []) = 0" "length (procs (run exampleEnv [])) = 1"
    by (simp_all add: session_defs exampleEnv_def)
  from h C8_pause_resume_symmetry [OF h(1-5), of None "Some ''SIGTERM''"]
  show ?thesis by simp
qed

subsection \<open>Shutdown\<close>

lemma stopRunner_resolved: "resolved (stopRunner child wt s) = resolved s"
  by (simp add: stopRunner_def Let_def disconnect_def sendSigterm_def emit_def)

lemma restartRunner_resolved: "resolved (restartRunner env f s) = resolved s"
  by (simp add: restartRunner_def Let_def emit_def stopRunner_resolved split_beta
      startRunner_frame)

lemma emitExit_resolved: "resolved (emitExit env child code s) = resolved s"
  by (simp add: emitExit_def onChildExit_def Let_def processExit_def emit_def
      onExitRestart_funpow_frame)

lemma handle_resolved:
  assumes "\<not> resolved s" and "resolved (handle env s ev)"
  shows "((\<exists>sg. ev = ProcessSignal sg) \<and> exited (procs s ! runner s)) \<or>
         (\<exists>k ok. ev = SigtermSettled k ok \<and> k < length (promises s) \<and>
            resolvesSession (promises s ! k) \<and> \<not> settled (promises s ! k))"
proof (cases ev)
  case (ProcessSignal sg)
  with assms show ?thesis
    by (auto simp: stopRunnerOnBeforeExit_def sendSigterm_def emit_def split: if_splits)
next
  case (SigtermSettled k ok)
  with assms show ?thesis
    by (auto simp: onSigtermSettled_def Let_def emit_def split: if_splits)
next
  case (FsNotification f)
  with assms show ?thesis
    by (auto simp: coreListener_def restartRunner_resolved split: if_splits)
next
  case (Restart f)
  with assms show ?thesis by (simp add: restartRunner_resolved)
next
  case (ChildExit child code sig)
  with assms show ?thesis by (auto simp: emitExit_resolved split: if_splits)
next
  case (ChildDisconnected child)
  with assms show ?thesis by (auto split: if_splits)
next
  case (IpcRequired child required)
  with assms handle_required_frame [of env s child required] show ?thesis
    by simp
next
  case (IpcError child wt)
  with assms show ?thesis
    by (auto simp: onError_def Let_def stopRunner_resolved emit_def split: if_splits)
next
  case (IpcReady child)
  with assms show ?thesis by (auto simp: onReady_def emit_def split: if_splits)
qed

text \<open>
  Claim C9. On SIGTERM or SIGINT in a live session: if the runner has exited the
  session is resolved at once and nothing is signalled; otherwise a termination
  signal is sent to the runner, the session is not resolved by that, and it is
  resolved when that signal's promise settles, after a warning if it was rejected,
  with the supervisor still running. No event resolves an unresolved session but
  a signal with the runner exited or the settling of such a promise.
\<close>

theorem C9_shutdown_sequencing:
  assumes "exitCode s = None"
  shows "(exited (procs s ! runner s) \<longrightarrow>
            step env s (ProcessSignal sg) = s\<lparr>resolved := True, effects := effects s @ [Resolve]\<rparr>) \<and>
         (\<not> exited (procs s ! runner s) \<longrightarrow>
            effects (step env s (ProcessSignal sg)) = effects s @ [SendSigterm (runner s)] \<and>
            resolved (step env s (ProcessSignal sg)) = resolved s \<and>
            promises (step env s (ProcessSignal sg)) =
              promises s @ [\<lparr>target = runner s, resolvesSession = True, settled = False\<rparr>] \<and>
            resolved (step env (step env s (ProcessSignal sg))
                        (SigtermSettled (length (promises s)) ok)) \<and>
            effects (step env (step env s (ProcessSignal sg))
                       (SigtermSettled (length (promises s)) ok)) =
              effects s @ [SendSigterm (runner s)] @ (if ok then [] else [ConsoleWarn]) @ [Resolve] \<and>
            exitCode (step env (step env s (ProcessSignal sg))
                        (SigtermSettled (length (promises s)) ok)) = None) \<and>
         (\<not> resolved s \<and> resolved (step env s ev) \<longrightarrow>
            ((\<exists>sg. ev = ProcessSignal sg) \<and> exited (procs s ! runner s)) \<or>
            (\<exists>k ok. ev = SigtermSettled k ok \<and> k < length (promises s) \<and>
               resolvesSession (promises s ! k) \<and> \<not> settled (promises s ! k)))"
proof (intro conjI impI)
  assume "exited (procs s ! runner s)"
  with assms show "step env s (ProcessSignal sg) =
      s\<lparr>resolved := True, effects := effects s @ [Resolve]\<rparr>"
    by (simp add: step_def stopRunnerOnBeforeExit_def resolveSession_def emit_def)
next
  assume alive: "\<not> exited (procs s ! runner s)"
  with assms have st: "step env s (ProcessSignal sg) = sendSigterm (runner s) True s"
    by (simp add: step_def stopRunnerOnBeforeExit_def)
  show "effects (step env s (ProcessSignal sg)) = effects s @ [SendSigterm (runner s)]"
    "resolved (step env s (ProcessSignal sg)) = resolved s"
    "promises (step env s (ProcessSignal sg)) =
       promises s @ [\<lparr>target = runner s, resolvesSession = True, settled = False\<rparr>]"
    by (simp_all add: st sendSigterm_def emit_def)
  show "resolved (step env (step env s (ProcessSignal sg))
                        (SigtermSettled (length (promises s)) ok))"
    "effects (step env (step env s (ProcessSignal sg))
                       (SigtermSettled (length (promises s)) ok)) =
              effects s @ [SendSigterm (runner s)] @ (if ok then [] else [ConsoleWarn]) @ [Resolve]"
    "exitCode (step env (step env s (ProcessSignal sg))
                        (SigtermSettled (length (promises s)) ok)) = None"
    unfolding st using assms
    by (simp_all add: sendSigterm_def emit_def step_def onSigtermSettled_def Let_def
        resolveSession_def)
next
  assume "\<not> resolved s \<and> resolved (step env s ev)"
  with assms handle_resolved [of s env ev]
  show "((\<exists>sg. ev = ProcessSignal sg) \<and> exited (procs s ! runner s)) \<or>
        (\<exists>k ok. ev = SigtermSettled k ok \<and> k < length (promises s) \<and>
           resolvesSession (promises s ! k) \<and> \<not> settled (promises s ! k))"
    by (simp add: step_def)
qed

theorem C9_shutdown_sequencing_witness:
  "exitCode (boot exampleEnv) = None \<and>
   \<not> exited (procs (boot exampleEnv) ! runner (boot exampleEnv)) \<and>
   \<not> resolved (step exampleEnv (boot exampleEnv) (ProcessSignal SIGINT)) \<and>
   resolved (step exampleEnv (step exampleEnv (boot exampleEnv) (ProcessSignal SIGINT))
      (SigtermSettled 0 False)) \<and>
   exitCode (run exampleEnv [Restart ''src/app.ts'', ChildExit 0 (Some 0) None, IpcError 1 None,
      ChildExit 1 (Some 1) None]) = None \<and>
   exited (procs (run exampleEnv [Restart ''src/app.ts'', ChildExit 0 (Some 0) None,
      IpcError 1 None, ChildExit 1 (Some 1) None]) ! 1) \<and>
   runner (run exampleEnv [Restart ''src/app.ts'', ChildExit 0 (Some 0) None, IpcError 1 None,
      ChildExit 1 (Some 1) None]) = 1 \<and>
   resolved (step exampleEnv
      (run exampleEnv [Restart ''src/app.ts'', ChildExit 0 (Some 0) None, IpcError 1 None,
         ChildExit 1 (Some 1) None]) (ProcessSignal SIGTERM))"
proof -
  let ?gone = "run exampleEnv [Restart ''src/app.ts'', ChildExit 0 (Some 0) None,
    IpcError 1 None, ChildExit 1 (Some 1) None]"
  have b: "exitCode (boot exampleEnv) = None"
    "\<not> exited (procs (boot exampleEnv) ! runner (boot exampleEnv))"
    "\<not> resolved (boot exampleEnv)" "promises (boot exampleEnv) = []"
    by (simp_all add: session_defs exampleEnv_def)
  have g: "exitCode ?gone = None" "exited (procs ?gone ! 1)" "runner ?gone = 1"
    by (simp_all add: session_defs exampleEnv_def)
  from b g C9_shutdown_sequencing [OF b(1), of exampleEnv SIGINT False "ProcessSignal SIGINT"]
    C9_shutdown_sequencing [OF g(1), of exampleEnv SIGTERM True "ProcessSignal SIGTERM"]
  show ?thesis by simp
qed


end
